theory Spec2Isabelle
  imports Complex_Main "HOL-Library.Word"
begin

section \<open>Numbers of the metrics module\<close>

text \<open>
  The accumulators of \<^verbatim>\<open>flax/nnx/nnx/training/metrics.py\<close> keep their state in
  \<^verbatim>\<open>float32\<close> and \<^verbatim>\<open>int32\<close> cells. A \<^verbatim>\<open>float32\<close> is modelled by its
  value: a real number inside the range of the format, one of the two infinities, or
  not-a-number. A result whose magnitude reaches \<open>2\<^sup>1\<^sup>2\<^sup>8 - 2\<^sup>1\<^sup>0\<^sup>3\<close>, the least that
  rounds beyond the largest \<^verbatim>\<open>float32\<close>, is the infinity of its sign, and the special
  values follow IEEE 754 (a quotient by zero is an infinity, or not-a-number for
  \<open>0 / 0\<close>). Rounding inside the range and the sign of zero are not modelled, so a
  result that stays in range is exact. Every divisor of this module is a count or the
  square root of one, hence never a negative zero.
\<close>

definition float32_overflow :: real where
  "float32_overflow = 2 ^ 128 - 2 ^ 103"

definition in_range :: "real \<Rightarrow> bool" where
  "in_range r = (\<bar>r\<bar> < float32_overflow)"

typedef finite32 = "{r :: real. \<bar>r\<bar> < float32_overflow}"
  morphisms real_of finite32_of
  by (rule exI [of _ 0]) (simp add: float32_overflow_def)

datatype f32 = Finite finite32 | PInf | NInf | NaN

text \<open>The \<^verbatim>\<open>float32\<close> of a real result: the number itself, or an infinity on overflow.\<close>

definition Fin :: "real \<Rightarrow> f32" where
  "Fin r = (if in_range r then Finite (finite32_of r) else if 0 < r then PInf else NInf)"

fun fneg :: "f32 \<Rightarrow> f32" where
  "fneg (Finite a) = Fin (- real_of a)"
| "fneg PInf = NInf"
| "fneg NInf = PInf"
| "fneg NaN = NaN"

fun fadd :: "f32 \<Rightarrow> f32 \<Rightarrow> f32" where
  "fadd (Finite a) (Finite b) = Fin (real_of a + real_of b)"
| "fadd (Finite a) PInf = PInf"
| "fadd (Finite a) NInf = NInf"
| "fadd PInf (Finite b) = PInf"
| "fadd PInf PInf = PInf"
| "fadd PInf NInf = NaN"
| "fadd NInf (Finite b) = NInf"
| "fadd NInf PInf = NaN"
| "fadd NInf NInf = NInf"
| "fadd NaN y = NaN"
| "fadd x NaN = NaN"

definition fsub :: "f32 \<Rightarrow> f32 \<Rightarrow> f32" where
  "fsub x y = fadd x (fneg y)"

fun fmul :: "f32 \<Rightarrow> f32 \<Rightarrow> f32" where
  "fmul (Finite a) (Finite b) = Fin (real_of a * real_of b)"
| "fmul (Finite a) PInf =
     (if real_of a = 0 then NaN else if 0 < real_of a then PInf else NInf)"
| "fmul (Finite a) NInf =
     (if real_of a = 0 then NaN else if 0 < real_of a then NInf else PInf)"
| "fmul PInf (Finite b) =
     (if real_of b = 0 then NaN else if 0 < real_of b then PInf else NInf)"
| "fmul NInf (Finite b) =
     (if real_of b = 0 then NaN else if 0 < real_of b then NInf else PInf)"
| "fmul PInf PInf = PInf"
| "fmul PInf NInf = NInf"
| "fmul NInf PInf = NInf"
| "fmul NInf NInf = PInf"
| "fmul NaN y = NaN"
| "fmul x NaN = NaN"

fun fdiv :: "f32 \<Rightarrow> f32 \<Rightarrow> f32" where
  "fdiv (Finite a) (Finite b) =
     (if real_of b = 0
      then (if real_of a = 0 then NaN else if 0 < real_of a then PInf else NInf)
      else Fin (real_of a / real_of b))"
| "fdiv (Finite a) PInf = Fin 0"
| "fdiv (Finite a) NInf = Fin 0"
| "fdiv PInf (Finite b) = (if 0 \<le> real_of b then PInf else NInf)"
| "fdiv NInf (Finite b) = (if 0 \<le> real_of b then NInf else PInf)"
| "fdiv PInf PInf = NaN"
| "fdiv PInf NInf = NaN"
| "fdiv NInf PInf = NaN"
| "fdiv NInf NInf = NaN"
| "fdiv NaN y = NaN"
| "fdiv x NaN = NaN"

text \<open>\<^verbatim>\<open>x ** 0.5\<close>: the square root, not-a-number below zero.\<close>

fun fpow_half :: "f32 \<Rightarrow> f32" where
  "fpow_half (Finite a) = (if real_of a < 0 then NaN else Fin (sqrt (real_of a)))"
| "fpow_half PInf = PInf"
| "fpow_half NInf = PInf"
| "fpow_half NaN = NaN"

text \<open>\<^verbatim>\<open>x <= y\<close> and \<^verbatim>\<open>x < y\<close>; every comparison with not-a-number is false.\<close>

fun fle :: "f32 \<Rightarrow> f32 \<Rightarrow> bool" where
  "fle (Finite a) (Finite b) = (real_of a \<le> real_of b)"
| "fle (Finite a) PInf = True"
| "fle (Finite a) NInf = False"
| "fle PInf (Finite b) = False"
| "fle PInf PInf = True"
| "fle PInf NInf = False"
| "fle NInf (Finite b) = True"
| "fle NInf PInf = True"
| "fle NInf NInf = True"
| "fle NaN y = False"
| "fle x NaN = False"

definition fless :: "f32 \<Rightarrow> f32 \<Rightarrow> bool" where
  "fless x y = (fle x y \<and> x \<noteq> y)"

text \<open>A sum of \<^verbatim>\<open>float32\<close> elements, accumulated in \<^verbatim>\<open>float32\<close>.\<close>

primrec fsum :: "f32 list \<Rightarrow> f32" where
  "fsum [] = Fin 0"
| "fsum (x # xs) = fadd x (fsum xs)"

fun is_Fin :: "f32 \<Rightarrow> bool" where
  "is_Fin (Finite a) = True"
| "is_Fin x = False"

fun the_Fin :: "f32 \<Rightarrow> real" where
  "the_Fin (Finite a) = real_of a"
| "the_Fin x = 0"

text \<open>
  An integer cell is a 32-bit word with its element type:
  \<^verbatim>\<open>jnp.array(0, dtype=jnp.int32)\<close> is \<open>Int32 0\<close>, and the
  \<^verbatim>\<open>jnp.array(0, dtype=jnp.uint32)\<close> that \<^verbatim>\<open>Welford.reset\<close> stores is
  \<open>UInt32 0\<close>. Adding a Python integer keeps the element type and wraps around.
\<close>

datatype intcell = Int32 "32 word" | UInt32 "32 word"

fun icell_add :: "intcell \<Rightarrow> nat \<Rightarrow> intcell" where
  "icell_add (Int32 w) n = Int32 (w + of_nat n)"
| "icell_add (UInt32 w) n = UInt32 (w + of_nat n)"

fun icell_int :: "intcell \<Rightarrow> int" where
  "icell_int (Int32 w) = sint w"
| "icell_int (UInt32 w) = uint w"

definition icell_f32 :: "intcell \<Rightarrow> f32" where
  "icell_f32 c = Fin (real_of_int (icell_int c))"

definition nat_f32 :: "nat \<Rightarrow> f32" where
  "nat_f32 n = Fin (real n)"

text \<open>
  A Python integer that meets an array in an arithmetic operation is first made an
  \<^verbatim>\<open>int32\<close>, and one outside the range of \<^verbatim>\<open>int32\<close> is refused with an
  \<^verbatim>\<open>OverflowError\<close>.
\<close>

definition weak_int_ok :: "int \<Rightarrow> bool" where
  "weak_int_ok i = (- (2 ^ 31) \<le> i \<and> i < 2 ^ 31)"

section \<open>Arguments of \<^verbatim>\<open>update\<close>\<close>

text \<open>
  A \<^verbatim>\<open>jax.Array\<close> is its shape, its element type and its elements in row-major
  order, each element given by its numeric value (\<^verbatim>\<open>True\<close> is 1, \<^verbatim>\<open>False\<close>
  is 0). An array is well formed when it has as many elements as its shape says.
\<close>

datatype dtype = float32 | int32 | uint32 | boolean

record ndarray =
  shape :: "nat list"
  dtype :: dtype
  elems :: "f32 list"

definition wf_array :: "ndarray \<Rightarrow> bool" where
  "wf_array a = (length (elems a) = prod_list (shape a))"

definition ndim :: "ndarray \<Rightarrow> nat" where
  "ndim a = length (shape a)"

definition size_arr :: "ndarray \<Rightarrow> nat" where
  "size_arr a = length (elems a)"

text \<open>
  \<^verbatim>\<open>values.sum()\<close> keeps the kind of the elements: a \<^verbatim>\<open>float32\<close> array is summed
  in \<^verbatim>\<open>float32\<close>, an \<^verbatim>\<open>int32\<close> or a boolean array in \<^verbatim>\<open>int32\<close> and a
  \<^verbatim>\<open>uint32\<close> array in \<^verbatim>\<open>uint32\<close>, where the sum wraps around. The result is
  given as the \<^verbatim>\<open>float32\<close> it becomes when it is added to \<^verbatim>\<open>total\<close>.
\<close>

definition int_sum :: "ndarray \<Rightarrow> int" where
  "int_sum a = (\<Sum>x\<leftarrow>elems a. \<lfloor>the_Fin x\<rfloor>)"

definition sum_arr :: "ndarray \<Rightarrow> f32" where
  "sum_arr a =
     (case dtype a of
        float32 \<Rightarrow> fsum (elems a)
      | int32 \<Rightarrow> Fin (real_of_int (signed_take_bit 31 (int_sum a)))
      | boolean \<Rightarrow> Fin (real_of_int (signed_take_bit 31 (int_sum a)))
      | uint32 \<Rightarrow> Fin (real_of_int (take_bit 32 (int_sum a))))"

text \<open>
  \<^verbatim>\<open>values.mean()\<close> is computed in \<^verbatim>\<open>float32\<close> for every element type: the sum
  over the size; not-a-number for an empty array.
\<close>

definition mean_arr :: "ndarray \<Rightarrow> f32" where
  "mean_arr a = fdiv (fsum (elems a)) (nat_f32 (size_arr a))"

text \<open>
  \<^verbatim>\<open>values.var()\<close>: the mean of the squared deviations from the mean, with the
  size as the denominator.
\<close>

definition var_arr :: "ndarray \<Rightarrow> f32" where
  "var_arr a =
     (let m = mean_arr a;
          centered = map (\<lambda>x. fsub x m) (elems a)
      in fdiv (fsum (map (\<lambda>d. fmul d d) centered)) (nat_f32 (size_arr a)))"

text \<open>
  The values \<^verbatim>\<open>update\<close> is annotated to take,
  \<^verbatim>\<open>tp.Union[int, float, jax.Array]\<close>: a Python integer or a Python float, for
  which \<^verbatim>\<open>isinstance(values, (int, float))\<close> holds, or an array. A Python float is
  given by the \<^verbatim>\<open>float32\<close> it becomes in an operation with a \<^verbatim>\<open>float32\<close> array.
  The keyword arguments are a dictionary from names to values.
\<close>

datatype pyval = PyInt int | PyFloat f32 | Array ndarray

type_synonym kwargs = "string \<rightharpoonup> pyval"

text \<open>
  The exceptions of the module. A method returns the updated object, or raises, and
  then the object is as the statements before the \<^verbatim>\<open>raise\<close> left it.
\<close>

datatype error = TypeError | ValueError | AttributeError | OverflowError | RecursionError

datatype 's outcome = Return 's | Raise error 's

text \<open>
  A Python integer as an operand of \<^verbatim>\<open>float32\<close> arithmetic: its value, or the
  \<^verbatim>\<open>OverflowError\<close> of an integer outside \<^verbatim>\<open>int32\<close>.
\<close>

definition weak_int :: "int \<Rightarrow> error + f32" where
  "weak_int i = (if weak_int_ok i then Inr (Fin (real_of_int i)) else Inl OverflowError)"

text \<open>
  The methods are declared \<^verbatim>\<open>def update(self, **kwargs)\<close>: a call that passes a
  keyword named \<^verbatim>\<open>self\<close> raises \<^verbatim>\<open>TypeError\<close> before the body runs, so the
  dictionary \<^verbatim>\<open>kwargs\<close> of the body never has that key. \<open>method_call\<close> is the call,
  its first argument the body.
\<close>

definition method_call :: "('s \<Rightarrow> kwargs \<Rightarrow> 's outcome) \<Rightarrow> 's \<Rightarrow> kwargs \<Rightarrow> 's outcome" where
  "method_call body self kwargs =
     (if kwargs ''self'' = None then body self kwargs else Raise TypeError self)"

section \<open>\<^verbatim>\<open>Average\<close>\<close>

record Average =
  argname :: string
  total :: f32
  count :: intcell

definition Average_init :: "string \<Rightarrow> Average" where
  "Average_init an = \<lparr>Average.argname = an, total = Fin 0, count = Int32 0\<rparr>"

definition Average_reset :: "Average \<Rightarrow> Average" where
  "Average_reset self = self\<lparr>total := Fin 0, Average.count := Int32 0\<rparr>"

definition Average_update :: "Average \<Rightarrow> kwargs \<Rightarrow> Average outcome" where
  "Average_update self kwargs =
     (case kwargs (Average.argname self) of
        None \<Rightarrow> Raise TypeError self
      | Some values \<Rightarrow>
          (case (case values of PyInt i \<Rightarrow> weak_int i | PyFloat v \<Rightarrow> Inr v
                 | Array a \<Rightarrow> Inr (sum_arr a)) of
             Inl e \<Rightarrow> Raise e self
           | Inr addend \<Rightarrow>
               (let self1 = self\<lparr>total := fadd (total self) addend\<rparr>;
                    n = (case values of Array a \<Rightarrow> size_arr a | _ \<Rightarrow> 1)
                in if weak_int_ok (int n)
                   then Return (self1\<lparr>Average.count := icell_add (Average.count self1) n\<rparr>)
                   else Raise OverflowError self1)))"

definition Average_compute :: "Average \<Rightarrow> f32" where
  "Average_compute self = fdiv (total self) (icell_f32 (Average.count self))"

section \<open>\<^verbatim>\<open>Welford\<close>\<close>

record Statistics =
  mean :: f32
  standard_error_of_mean :: f32
  standard_deviation :: f32

record Welford =
  argname :: string
  count :: intcell
  mean :: f32
  m2 :: f32

definition Welford_init :: "string \<Rightarrow> Welford" where
  "Welford_init an =
     \<lparr>Welford.argname = an, count = Int32 0, mean = Fin 0, m2 = Fin 0\<rparr>"

definition Welford_reset :: "Welford \<Rightarrow> Welford" where
  "Welford_reset self =
     self\<lparr>Welford.count := UInt32 0, Welford.mean := Fin 0, m2 := Fin 0\<rparr>"

definition Welford_update :: "Welford \<Rightarrow> kwargs \<Rightarrow> Welford outcome" where
  "Welford_update self kwargs =
     (case kwargs (Welford.argname self) of
        None \<Rightarrow> Raise TypeError self
      | Some values \<Rightarrow>
          (let count = (case values of Array a \<Rightarrow> size_arr a | _ \<Rightarrow> 1);
               original_count = Welford.count self
           in if \<not> weak_int_ok (int count) then Raise OverflowError self
              else
                (let self1 = self\<lparr>Welford.count := icell_add (Welford.count self) count\<rparr>
                 in case (case values of PyInt i \<Rightarrow> weak_int i | PyFloat v \<Rightarrow> Inr v
                          | Array a \<Rightarrow> Inr (mean_arr a)) of
                      Inl e \<Rightarrow> Raise e self1
                    | Inr v \<Rightarrow>
                        (let delta = fsub v (Welford.mean self1);
                             self2 = self1\<lparr>Welford.mean :=
                               fadd (Welford.mean self1)
                                 (fdiv (fmul delta (nat_f32 count))
                                    (icell_f32 (Welford.count self1)))\<rparr>;
                             m2' = (case values of
                                      Array a \<Rightarrow> fmul (var_arr a) (nat_f32 count)
                                    | _ \<Rightarrow> Fin 0);
                             self3 = self2\<lparr>m2 :=
                               fadd (m2 self2)
                                 (fadd m2'
                                    (fdiv (fmul (fmul (fmul delta delta) (nat_f32 count))
                                             (icell_f32 original_count))
                                       (icell_f32 (Welford.count self2))))\<rparr>
                         in Return self3))))"

definition Welford_compute :: "Welford \<Rightarrow> Statistics" where
  "Welford_compute self =
     (let variance = fdiv (m2 self) (icell_f32 (Welford.count self));
          standard_deviation = fpow_half variance;
          sem = fdiv standard_deviation (fpow_half (icell_f32 (Welford.count self)))
      in \<lparr>Statistics.mean = Welford.mean self,
          standard_error_of_mean = sem,
          standard_deviation = standard_deviation\<rparr>)"


section \<open>\<^verbatim>\<open>Accuracy\<close>\<close>

text \<open>
  \<^verbatim>\<open>Accuracy\<close> inherits the constructor, \<^verbatim>\<open>reset\<close> and \<^verbatim>\<open>compute\<close> of
  \<^verbatim>\<open>Average\<close>, so its objects are \<^verbatim>\<open>Average\<close> records. Its \<^verbatim>\<open>update\<close> uses three
  array operations of \<^verbatim>\<open>jax.numpy\<close>, modelled on the flat row-major elements.

  \<open>chunks n k xs\<close> cuts \<open>xs\<close> into \<open>k\<close> consecutive rows of \<open>n\<close> elements.
\<close>

definition chunks :: "nat \<Rightarrow> nat \<Rightarrow> 'a list \<Rightarrow> 'a list list" where
  "chunks n k xs = map (\<lambda>i. take n (drop (i * n) xs)) [0..<k]"

text \<open>
  The index of the maximum of a row: the first one among equal maxima, and a not-a-number
  element counts as the largest.
\<close>

definition better :: "f32 \<Rightarrow> f32 \<Rightarrow> bool" where
  "better x best = (best \<noteq> NaN \<and> (x = NaN \<or> fless best x))"

fun argmax_from :: "nat \<Rightarrow> f32 \<Rightarrow> nat \<Rightarrow> f32 list \<Rightarrow> nat" where
  "argmax_from bi best i [] = bi"
| "argmax_from bi best i (x # xs) =
     (if better x best then argmax_from i x (Suc i) xs else argmax_from bi best (Suc i) xs)"

fun argmax_row :: "f32 list \<Rightarrow> nat" where
  "argmax_row [] = 0"
| "argmax_row (x # xs) = argmax_from 0 x 1 xs"

text \<open>
  \<^verbatim>\<open>logits.argmax(axis=-1)\<close>: the last axis is reduced; an array without axes or
  with an empty last axis is rejected with a \<^verbatim>\<open>ValueError\<close>.
\<close>

definition argmax_last :: "ndarray \<Rightarrow> error + ndarray" where
  "argmax_last a =
     (if shape a = [] then Inl ValueError
      else if last (shape a) = 0 then Inl ValueError
      else Inr \<lparr>shape = butlast (shape a), dtype = int32,
                elems = map (\<lambda>row. nat_f32 (argmax_row row))
                  (chunks (last (shape a)) (prod_list (butlast (shape a))) (elems a))\<rparr>)"

text \<open>
  Broadcasting of \<^verbatim>\<open>==\<close>: the shorter shape is padded with leading ones, two
  extents agree when they are equal or one of them is 1, and an array is repeated along
  the axes where its extent is 1. Shapes that do not agree are rejected with a
  \<^verbatim>\<open>TypeError\<close>.
\<close>

definition pad_shape :: "nat \<Rightarrow> nat list \<Rightarrow> nat list" where
  "pad_shape r s = replicate (r - length s) 1 @ s"

fun broadcast_shapes :: "nat list \<Rightarrow> nat list \<Rightarrow> nat list option" where
  "broadcast_shapes [] [] = Some []"
| "broadcast_shapes (d # ds) (e # es) =
     (if d = e \<or> e = 1 then map_option (Cons d) (broadcast_shapes ds es)
      else if d = 1 then map_option (Cons e) (broadcast_shapes ds es)
      else None)"
| "broadcast_shapes ds es = None"

fun broadcast_to :: "nat list \<Rightarrow> nat list \<Rightarrow> 'a list \<Rightarrow> 'a list" where
  "broadcast_to (d # ds) (t # ts) xs =
     (if d = t then concat (map (broadcast_to ds ts) (chunks (prod_list ds) d xs))
      else concat (replicate t (broadcast_to ds ts xs)))"
| "broadcast_to ds ts xs = xs"

text \<open>\<^verbatim>\<open>x == y\<close> on numbers: not-a-number equals nothing.\<close>

definition feq :: "f32 \<Rightarrow> f32 \<Rightarrow> bool" where
  "feq x y = (x \<noteq> NaN \<and> x = y)"

definition bool_f32 :: "bool \<Rightarrow> f32" where
  "bool_f32 b = (if b then Fin 1 else Fin 0)"

text \<open>The shape of \<^verbatim>\<open>a == b\<close>, when the shapes agree.\<close>

definition equal_shape :: "ndarray \<Rightarrow> ndarray \<Rightarrow> nat list option" where
  "equal_shape a b =
     broadcast_shapes (pad_shape (max (ndim a) (ndim b)) (shape a))
       (pad_shape (max (ndim a) (ndim b)) (shape b))"

definition equal_arr :: "ndarray \<Rightarrow> ndarray \<Rightarrow> error + ndarray" where
  "equal_arr a b =
     (let r = max (ndim a) (ndim b);
          sa = pad_shape r (shape a);
          sb = pad_shape r (shape b)
      in case equal_shape a b of
           None \<Rightarrow> Inl TypeError
         | Some s \<Rightarrow>
             Inr \<lparr>shape = s, dtype = boolean,
                  elems = map2 (\<lambda>x y. bool_f32 (feq x y))
                    (broadcast_to sa s (elems a)) (broadcast_to sb s (elems b))\<rparr>)"

text \<open>
  The body of \<^verbatim>\<open>Accuracy.update(self, *, logits, labels, **_)\<close>. The call raises
  \<^verbatim>\<open>TypeError\<close> when a required keyword is missing, and reading \<^verbatim>\<open>ndim\<close> of a
  Python number raises \<^verbatim>\<open>AttributeError\<close>. The comparison is handed to
  \<^verbatim>\<open>Average.update\<close> under the keyword \<^verbatim>\<open>values\<close>, whatever the configured
  name is.
\<close>

definition Accuracy_update :: "Average \<Rightarrow> kwargs \<Rightarrow> Average outcome" where
  "Accuracy_update self kwargs =
     (case (kwargs ''logits'', kwargs ''labels'') of
        (Some (Array logits), Some (Array labels)) \<Rightarrow>
          (if ndim logits \<noteq> ndim labels + 1 \<or> dtype labels \<noteq> int32
           then Raise ValueError self
           else (case argmax_last logits of
                   Inl e \<Rightarrow> Raise e self
                 | Inr predicted \<Rightarrow>
                     (case equal_arr predicted labels of
                        Inl e \<Rightarrow> Raise e self
                      | Inr values \<Rightarrow> Average_update self [''values'' \<mapsto> Array values])))
      | (Some (Array logits), Some y) \<Rightarrow> Raise AttributeError self
      | (Some x, Some y) \<Rightarrow> Raise AttributeError self
      | (None, y) \<Rightarrow> Raise TypeError self
      | (x, None) \<Rightarrow> Raise TypeError self)"


section \<open>Sequences of updates\<close>

text \<open>
  A caller's run of \<^verbatim>\<open>update\<close> calls on one object: each call works on the
  object the previous one left, and the first exception ends the run.
\<close>

fun update_all :: "('s \<Rightarrow> kwargs \<Rightarrow> 's outcome) \<Rightarrow> 's \<Rightarrow> kwargs list \<Rightarrow> 's outcome" where
  "update_all upd self [] = Return self"
| "update_all upd self (kw # kws) =
     (case upd self kw of
        Return self' \<Rightarrow> update_all upd self' kws
      | Raise e self' \<Rightarrow> Raise e self')"

text \<open>The observations one value of \<^verbatim>\<open>update\<close> carries, and their number.\<close>

fun values_of :: "pyval \<Rightarrow> f32 list" where
  "values_of (PyInt i) = [Fin (real_of_int i)]"
| "values_of (PyFloat v) = [v]"
| "values_of (Array a) = elems a"

definition all_values :: "pyval list \<Rightarrow> f32 list" where
  "all_values vals = concat (map values_of vals)"

text \<open>
  A value of moderate size: a Python integer inside \<^verbatim>\<open>int32\<close>, a finite Python
  float of magnitude at most \<open>2\<^sup>3\<^sup>1\<close>, or an array of such numbers.
\<close>

definition moderate :: "f32 \<Rightarrow> bool" where
  "moderate x = (is_Fin x \<and> \<bar>the_Fin x\<bar> \<le> 2 ^ 31)"

fun moderate_value :: "pyval \<Rightarrow> bool" where
  "moderate_value (PyInt i) = weak_int_ok i"
| "moderate_value (PyFloat v) = moderate v"
| "moderate_value (Array a) = list_all moderate (elems a)"

fun nonempty_value :: "pyval \<Rightarrow> bool" where
  "nonempty_value (Array a) = (elems a \<noteq> [])"
| "nonempty_value v = True"

text \<open>
  An array whose \<^verbatim>\<open>sum()\<close> does not wrap around: the elements of an integer or
  boolean array are whole numbers, and their sum is inside the range of the type it is
  computed in.
\<close>

definition whole :: "f32 \<Rightarrow> bool" where
  "whole x = (is_Fin x \<and> the_Fin x = real_of_int \<lfloor>the_Fin x\<rfloor>)"

definition sum_fits :: "ndarray \<Rightarrow> bool" where
  "sum_fits a =
     (case dtype a of
        float32 \<Rightarrow> True
      | int32 \<Rightarrow> list_all whole (elems a) \<and> - (2 ^ 31) \<le> int_sum a \<and> int_sum a < 2 ^ 31
      | boolean \<Rightarrow> list_all whole (elems a) \<and> - (2 ^ 31) \<le> int_sum a \<and> int_sum a < 2 ^ 31
      | uint32 \<Rightarrow> list_all whole (elems a) \<and> 0 \<le> int_sum a \<and> int_sum a < 2 ^ 32)"

fun sum_fits_value :: "pyval \<Rightarrow> bool" where
  "sum_fits_value (Array a) = sum_fits a"
| "sum_fits_value v = True"

section \<open>Reference statistics\<close>

text \<open>
  The two-pass statistics of a sequence of reals, as the specification words them: the
  population mean by direct summation, and the population standard deviation from the
  summed squared deviations from that mean.
\<close>

definition population_mean :: "real list \<Rightarrow> real" where
  "population_mean vs = sum_list vs / real (length vs)"

definition population_sd :: "real list \<Rightarrow> real" where
  "population_sd vs =
     sqrt ((\<Sum>v\<leftarrow>vs. (v - population_mean vs) * (v - population_mean vs)) / real (length vs))"

text \<open>
  The classic recurrence of Welford for one observation \<open>x\<close>, as the specification
  refers to it: the count grows by one, the mean moves by \<open>(x - mean) / count\<close>, and
  \<open>m2\<close> grows by \<open>(x - old mean) * (x - new mean)\<close>.
\<close>

definition classic_Welford :: "Welford \<Rightarrow> real \<Rightarrow> Welford" where
  "classic_Welford self x =
     (let n = real_of_int (icell_int (Welford.count self)) + 1;
          old_mean = the_Fin (Welford.mean self);
          new_mean = old_mean + (x - old_mean) / n
      in self\<lparr>Welford.count := icell_add (Welford.count self) 1,
              Welford.mean := Fin new_mean,
              m2 := Fin (the_Fin (m2 self) + (x - old_mean) * (x - new_mean))\<rparr>)"

section \<open>State predicates\<close>

text \<open>The invariants the data model states: \<open>count \<ge> 0\<close>, and \<open>m2 \<ge> 0\<close>.\<close>

definition Average_inv :: "Average \<Rightarrow> bool" where
  "Average_inv self = (0 \<le> icell_int (Average.count self))"

definition Welford_inv :: "Welford \<Rightarrow> bool" where
  "Welford_inv self = (0 \<le> icell_int (Welford.count self) \<and> fle (Fin 0) (m2 self))"

text \<open>
  A state of moderate size: the mean is finite with magnitude at most \<open>2\<^sup>3\<^sup>1\<close>, and
  \<open>m2\<close> is finite, not negative and at most \<open>2\<^sup>6\<^sup>5\<close> times the count, which is not
  negative. It is what observations of moderate size lead to.
\<close>

definition moderate_state :: "Welford \<Rightarrow> bool" where
  "moderate_state self =
     (moderate (Welford.mean self) \<and> is_Fin (m2 self) \<and> 0 \<le> the_Fin (m2 self) \<and>
      the_Fin (m2 self) \<le> 2 ^ 65 * real_of_int (icell_int (Welford.count self)) \<and>
      0 \<le> icell_int (Welford.count self))"

text \<open>
  The count as a real, and the sums a finite state stands for: \<open>count * mean\<close> is the
  sum of the observations, \<open>m2 + count * mean\<^sup>2\<close> the sum of their squares.
\<close>

definition count_real :: "Welford \<Rightarrow> real" where
  "count_real self = real_of_int (icell_int (Welford.count self))"

definition moment1 :: "Welford \<Rightarrow> real" where
  "moment1 self = count_real self * the_Fin (Welford.mean self)"

definition moment2 :: "Welford \<Rightarrow> real" where
  "moment2 self = the_Fin (m2 self)
     + count_real self * (the_Fin (Welford.mean self) * the_Fin (Welford.mean self))"


text \<open>
  The first value an integer cell cannot hold: \<open>2\<^sup>3\<^sup>1\<close> for \<^verbatim>\<open>int32\<close>,
  \<open>2\<^sup>3\<^sup>2\<close> for \<^verbatim>\<open>uint32\<close>.
\<close>

fun icell_bound :: "intcell \<Rightarrow> int" where
  "icell_bound (Int32 w) = 2 ^ 31"
| "icell_bound (UInt32 w) = 2 ^ 32"

text \<open>
  A value the arithmetic accepts: a Python float, a Python integer inside \<^verbatim>\<open>int32\<close>,
  or an array whose size is.
\<close>

fun accepted_value :: "pyval \<Rightarrow> bool" where
  "accepted_value (PyInt i) = weak_int_ok i"
| "accepted_value (PyFloat v) = True"
| "accepted_value (Array a) = weak_int_ok (int (size_arr a))"

text \<open>A scalar argument of \<^verbatim>\<open>update\<close>: a Python integer or float, not an array.\<close>

fun scalar_value :: "pyval \<Rightarrow> bool" where
  "scalar_value (Array a) = False"
| "scalar_value v = True"

text \<open>The observations of a run of updates, as reals.\<close>

definition observations :: "pyval list \<Rightarrow> real list" where
  "observations vals = map the_Fin (all_values vals)"


section \<open>Basic facts about the numbers\<close>

lemma in_range_real_of [simp]: "in_range (real_of a)"
  using real_of [of a] by (simp add: in_range_def)

lemma real_of_finite32_of [simp]: "in_range r \<Longrightarrow> real_of (finite32_of r) = r"
  by (simp add: finite32_of_inverse in_range_def)

lemma Fin_real_of [simp]: "Fin (real_of a) = Finite a"
  by (simp add: Fin_def real_of_inverse)

lemma Fin_not_NaN [simp]: "Fin r \<noteq> NaN" "NaN \<noteq> Fin r"
  by (simp_all add: Fin_def)

lemma Fin_finite: "in_range r \<Longrightarrow> Fin r = Finite (finite32_of r)"
  by (simp add: Fin_def)

lemma Fin_not_inf [simp]:
  "in_range r \<Longrightarrow> Fin r \<noteq> PInf" "in_range r \<Longrightarrow> Fin r \<noteq> NInf"
  "in_range r \<Longrightarrow> PInf \<noteq> Fin r" "in_range r \<Longrightarrow> NInf \<noteq> Fin r"
  by (simp_all add: Fin_def)

lemma is_Fin_Fin [simp]: "is_Fin (Fin r) = in_range r"
  by (simp add: Fin_def)

lemma the_Fin_Fin [simp]: "in_range r \<Longrightarrow> the_Fin (Fin r) = r"
  by (simp add: Fin_def)

lemma Fin_eq_iff [simp]: "in_range a \<Longrightarrow> in_range b \<Longrightarrow> Fin a = Fin b \<longleftrightarrow> a = b"
  by (simp add: Fin_def finite32_of_inject in_range_def)

lemma in_range_0 [simp]: "in_range 0"
  by (simp add: in_range_def float32_overflow_def)

lemma in_range_1 [simp]: "in_range 1"
  by (simp add: in_range_def float32_overflow_def)

lemma in_range_le: "\<bar>r\<bar> \<le> 2 ^ 127 \<Longrightarrow> in_range r"
  by (simp add: in_range_def float32_overflow_def)

lemma in_range_uminus [simp]: "in_range (- r) = in_range r"
  by (simp add: in_range_def)

lemma f32_cases [case_names Fin PInf NInf NaN]:
  obtains r where "in_range r" "x = Fin r" | "x = PInf" | "x = NInf" | "x = NaN"
proof (cases x)
  case (Finite a)
  then have "x = Fin (real_of a)" by simp
  then show ?thesis using that(1) in_range_real_of by blast
qed auto

lemma is_Fin_iff: "is_Fin x \<longleftrightarrow> (\<exists>r. in_range r \<and> x = Fin r)"
  by (cases x rule: f32_cases) auto

lemma Fin_the_Fin: "is_Fin x \<Longrightarrow> Fin (the_Fin x) = x"
  by (auto simp: is_Fin_iff)

lemma in_range_the_Fin [simp]: "in_range (the_Fin x)"
  by (cases x) simp_all

lemma fneg_Fin [simp]: "in_range a \<Longrightarrow> fneg (Fin a) = Fin (- a)"
  by (simp add: Fin_def)

lemma fadd_Fin [simp]: "in_range a \<Longrightarrow> in_range b \<Longrightarrow> fadd (Fin a) (Fin b) = Fin (a + b)"
  by (simp add: Fin_def)

lemma fsub_Fin [simp]: "in_range a \<Longrightarrow> in_range b \<Longrightarrow> fsub (Fin a) (Fin b) = Fin (a - b)"
  by (simp add: fsub_def)

lemma fmul_Fin [simp]: "in_range a \<Longrightarrow> in_range b \<Longrightarrow> fmul (Fin a) (Fin b) = Fin (a * b)"
  by (simp add: Fin_def)

lemma fdiv_Fin [simp]:
  "in_range a \<Longrightarrow> in_range b \<Longrightarrow> b \<noteq> 0 \<Longrightarrow> fdiv (Fin a) (Fin b) = Fin (a / b)"
  by (simp add: Fin_def)

lemma fdiv_Fin_zero:
  "in_range a \<Longrightarrow> fdiv (Fin a) (Fin 0) = (if a = 0 then NaN else if 0 < a then PInf else NInf)"
  by (simp add: Fin_def)

lemma fpow_half_Fin [simp]:
  "in_range a \<Longrightarrow> fpow_half (Fin a) = (if a < 0 then NaN else Fin (sqrt a))"
  by (simp add: Fin_def)

lemma fle_Fin [simp]: "in_range a \<Longrightarrow> in_range b \<Longrightarrow> fle (Fin a) (Fin b) = (a \<le> b)"
  by (simp add: Fin_def)

lemma fadd_zero_right: "fadd x (Fin 0) = x"
  by (cases x rule: f32_cases) (simp_all add: Fin_def)

lemma fadd_zero_left: "fadd (Fin 0) x = x"
  by (cases x rule: f32_cases) (simp_all add: Fin_def)

lemma fmul_commute: "fmul x y = fmul y x"
  by (cases x; cases y) (simp_all add: mult.commute)

lemma icell_add_zero: "icell_add c 0 = c"
  by (cases c) simp_all

lemma in_range_nat: "n < 2 ^ 64 \<Longrightarrow> in_range (real n)"
proof (rule in_range_le)
  assume "n < 2 ^ 64"
  then have "real n < 2 ^ 64"
    by (metis of_nat_less_iff of_nat_numeral of_nat_power)
  then show "\<bar>real n\<bar> \<le> 2 ^ 127" by simp
qed

lemma in_range_int: "\<bar>i\<bar> \<le> 2 ^ 32 \<Longrightarrow> in_range (real_of_int i)"
proof (rule in_range_le)
  assume "\<bar>i\<bar> \<le> 2 ^ 32"
  then have "\<bar>real_of_int i\<bar> \<le> 2 ^ 32"
    by (metis of_int_abs of_int_le_iff of_int_numeral of_int_power)
  then show "\<bar>real_of_int i\<bar> \<le> 2 ^ 127" by simp
qed


lemma fadd_NaN [simp]: "fadd x NaN = NaN" "fadd NaN x = NaN"
  by (cases x; simp)+

lemma fmul_NaN [simp]: "fmul x NaN = NaN" "fmul NaN x = NaN"
  by (cases x; simp)+

lemma fdiv_NaN [simp]: "fdiv x NaN = NaN" "fdiv NaN x = NaN"
  by (cases x; simp)+

lemma fsub_NaN [simp]: "fsub x NaN = NaN" "fsub NaN x = NaN"
  by (simp_all add: fsub_def)

lemma fle_NaN [simp]: "fle x NaN = False" "fle NaN x = False"
  by (cases x; simp)+

section \<open>Counts that do not wrap\<close>

lemma sint_add_of_nat:
  fixes w :: "32 word"
  assumes "sint w + int n < 2 ^ 31"
  shows "sint (w + of_nat n) = sint w + int n"
proof -
  have "w + of_nat n = word_of_int (sint w + int n)"
    by simp
  then have "sint (w + of_nat n) = signed_take_bit 31 (sint w + int n)"
    by (simp only: sint_sbintrunc') simp
  also have "\<dots> = sint w + int n"
  proof (rule signed_take_bit_int_eq_self)
    have "- (2 ^ 31) \<le> sint w" using sint_ge [of w] by simp
    then show "- (2 ^ 31) \<le> sint w + int n" by simp
    show "sint w + int n < 2 ^ 31" by (rule assms)
  qed
  finally show ?thesis .
qed

lemma uint_add_of_nat:
  fixes w :: "32 word"
  assumes "uint w + int n < 2 ^ 32"
  shows "uint (w + of_nat n) = uint w + int n"
proof -
  have "w + of_nat n = word_of_int (uint w + int n)"
    by simp
  then have "uint (w + of_nat n) = (uint w + int n) mod 2 ^ 32"
    by (simp only: uint_word_of_int) simp
  also have "\<dots> = uint w + int n"
    using assms by (intro mod_pos_pos_trivial) simp_all
  finally show ?thesis .
qed

lemma icell_int_add:
  "icell_int c + int n < icell_bound c \<Longrightarrow> icell_int (icell_add c n) = icell_int c + int n"
  by (cases c) (simp_all add: sint_add_of_nat uint_add_of_nat)

lemma icell_bound_add [simp]: "icell_bound (icell_add c n) = icell_bound c"
  by (cases c) simp_all

lemma icell_add_add: "icell_add (icell_add c m) n = icell_add c (m + n)"
  by (cases c) simp_all

lemma icell_bound_le: "2 ^ 31 \<le> icell_bound c"
  by (cases c) simp_all

section \<open>The update formula of \<^verbatim>\<open>Welford\<close>\<close>

text \<open>
  C1, for values the arithmetic accepts and counts that do not wrap. Let the configured
  keyword be present, no keyword be named \<^verbatim>\<open>self\<close>, the value be a Python float, a
  Python integer inside \<^verbatim>\<open>int32\<close> or an array of fewer than \<open>2\<^sup>3\<^sup>1\<close> elements, and
  \<open>count_before + n\<close> be inside the range of the count. Then the call of
  \<^verbatim>\<open>Welford.update\<close> returns with \<open>count = count_before + n\<close>,
  \<open>mean = mean + delta * n / count\<close> and
  \<open>m2 = m2 + (batch_var_sum + delta * delta * n * count_before / count)\<close>, where \<open>n\<close> is
  1 for a scalar and the size for an array, \<open>batch_mean\<close> is the scalar or the mean of
  the array, \<open>batch_var_sum\<close> is 0 for a scalar and the population variance of the array
  times \<open>n\<close>, and \<open>delta = batch_mean - mean\<close>. The arithmetic is that of
  \<^verbatim>\<open>float32\<close>, in the order the code evaluates it.
\<close>

theorem Welford_update_formula:
  assumes "kwargs (Welford.argname self) = Some values" and "kwargs ''self'' = None"
    and "accepted_value values"
    and "icell_int (Welford.count self) + int (length (values_of values))
           < icell_bound (Welford.count self)"
  shows "let n = (case values of Array a \<Rightarrow> size_arr a | _ \<Rightarrow> 1);
             batch_mean = (case values of PyInt i \<Rightarrow> Fin (real_of_int i) | PyFloat v \<Rightarrow> v
                           | Array a \<Rightarrow> mean_arr a);
             batch_var_sum = (case values of Array a \<Rightarrow> fmul (var_arr a) (nat_f32 n)
                              | _ \<Rightarrow> Fin 0);
             count_before = Welford.count self;
             count_after = icell_add count_before n;
             delta = fsub batch_mean (Welford.mean self)
         in method_call Welford_update self kwargs =
              Return (self\<lparr>Welford.count := count_after,
                Welford.mean := fadd (Welford.mean self)
                  (fdiv (fmul delta (nat_f32 n)) (icell_f32 count_after)),
                m2 := fadd (m2 self)
                  (fadd batch_var_sum
                     (fdiv (fmul (fmul (fmul delta delta) (nat_f32 n)) (icell_f32 count_before))
                        (icell_f32 count_after)))\<rparr>) \<and>
            icell_int count_after = icell_int count_before + int n"
proof (cases "values")
  case (PyInt i)
  with assms show ?thesis
    by (simp add: method_call_def Welford_update_def Let_def weak_int_def weak_int_ok_def
        icell_int_add)
next
  case (PyFloat v)
  with assms show ?thesis
    by (simp add: method_call_def Welford_update_def Let_def weak_int_ok_def icell_int_add)
next
  case (Array a)
  with assms show ?thesis
    by (simp add: method_call_def Welford_update_def Let_def size_arr_def icell_int_add)
qed

theorem Welford_update_formula_witness:
  "method_call Welford_update
     \<lparr>Welford.argname = ''values'', count = Int32 2, mean = Fin 3, m2 = Fin 2\<rparr>
     [''values'' \<mapsto> Array \<lparr>shape = [2], dtype = float32, elems = [Fin 6, Fin 8]\<rparr>]
   = Return \<lparr>Welford.argname = ''values'', count = Int32 4, mean = Fin 5, m2 = Fin 20\<rparr>"
proof -
  let ?self = "\<lparr>Welford.argname = ''values'', count = Int32 2, mean = Fin 3, m2 = Fin 2\<rparr>"
  let ?a = "\<lparr>shape = [2], dtype = float32, elems = [Fin 6, Fin 8]\<rparr>"
  let ?kw = "[''values'' \<mapsto> Array ?a]"
  have h1: "?kw (Welford.argname ?self) = Some (Array ?a)" by simp
  have h2: "?kw ''self'' = None" by simp
  have h3: "accepted_value (Array ?a)" by (simp add: size_arr_def weak_int_ok_def)
  have h4: "icell_int (Welford.count ?self) + int (length (values_of (Array ?a)))
      < icell_bound (Welford.count ?self)" by simp
  have r: "in_range 2" "in_range 3" "in_range 4" "in_range 5"
    "in_range 6" "in_range 7" "in_range 8" "in_range 14" "in_range 16" "in_range 18"
    "in_range 20" "in_range 32" "in_range 64"
    by (simp_all add: in_range_def float32_overflow_def)
  show ?thesis
    using Welford_update_formula [where self = ?self and kwargs = ?kw, OF h1 h2 h3 h4]
    by (simp add: Let_def size_arr_def mean_arr_def var_arr_def nat_f32_def icell_f32_def r)
qed

text \<open>
  Four calls with the configured keyword that do not do what the formulas say: a Python
  integer outside \<^verbatim>\<open>int32\<close> raises after the count has grown, an array of
  \<open>2\<^sup>3\<^sup>1\<close> elements raises, a keyword named \<^verbatim>\<open>self\<close> raises, and at the largest
  \<^verbatim>\<open>int32\<close> count the new count is not \<open>count_before + 1\<close>.
\<close>

theorem Welford_update_formula_counterexample:
  "method_call Welford_update (Welford_init ''values'') [''values'' \<mapsto> PyInt (2 ^ 31)]
     = Raise OverflowError
         \<lparr>Welford.argname = ''values'', count = Int32 1, mean = Fin 0, m2 = Fin 0\<rparr> \<and>
   method_call Welford_update (Welford_init ''values'')
       [''values'' \<mapsto> Array \<lparr>shape = [2 ^ 31], dtype = float32,
                                elems = replicate (2 ^ 31) (Fin 0)\<rparr>]
     = Raise OverflowError (Welford_init ''values'') \<and>
   method_call Welford_update (Welford_init ''self'') [''self'' \<mapsto> PyFloat (Fin 1)]
     = Raise TypeError (Welford_init ''self'') \<and>
   method_call Welford_update
       \<lparr>Welford.argname = ''values'', count = Int32 (2 ^ 31 - 1), mean = Fin 1, m2 = Fin 0\<rparr>
       [''values'' \<mapsto> PyFloat (Fin 1)]
     = Return \<lparr>Welford.argname = ''values'', count = Int32 (2 ^ 31), mean = Fin 1, m2 = Fin 0\<rparr> \<and>
   icell_int (Int32 (2 ^ 31)) \<noteq> icell_int (Int32 (2 ^ 31 - 1)) + 1"
proof -
  have r: "in_range 2147483647" "in_range 2147483648"
    by (simp_all add: in_range_def float32_overflow_def)
  show ?thesis
    by (simp add: method_call_def Welford_update_def Welford_init_def Let_def weak_int_def
        weak_int_ok_def size_arr_def nat_f32_def icell_f32_def r)
qed

section \<open>The zero-count state\<close>

text \<open>
  C6. With a zero count, freshly constructed or just reset, \<^verbatim>\<open>compute\<close> does not
  raise. \<^verbatim>\<open>Average.compute\<close> is not-a-number. \<^verbatim>\<open>Welford.compute\<close> has a
  not-a-number standard deviation and standard error, while its \<^verbatim>\<open>mean\<close> field is
  the stored mean, which is 0.
\<close>

theorem zero_count_compute:
  "Average_compute (Average_init an) = NaN \<and>
   Average_compute (Average_reset a) = NaN \<and>
   Welford_compute (Welford_init an) =
     \<lparr>Statistics.mean = Fin 0, standard_error_of_mean = NaN, standard_deviation = NaN\<rparr> \<and>
   Welford_compute (Welford_reset w) =
     \<lparr>Statistics.mean = Fin 0, standard_error_of_mean = NaN, standard_deviation = NaN\<rparr>"
  by (simp add: Average_compute_def Average_init_def Average_reset_def icell_f32_def
      Welford_compute_def Welford_init_def Welford_reset_def Let_def fdiv_Fin_zero)

text \<open>
  The mean field that \<^verbatim>\<open>compute\<close> returns for a fresh \<^verbatim>\<open>Welford\<close> is a
  number, not not-a-number.
\<close>

theorem Welford_zero_count_mean_counterexample:
  "Statistics.mean (Welford_compute (Welford_init ''values'')) \<noteq> NaN"
  by (simp add: Welford_compute_def Welford_init_def Let_def)

section \<open>A missing keyword\<close>




section \<open>An empty batch\<close>




section \<open>Sums of values of moderate size\<close>

lemma abs_mult_le:
  fixes a b :: real
  assumes "\<bar>a\<bar> \<le> A" "\<bar>b\<bar> \<le> B"
  shows "\<bar>a * b\<bar> \<le> A * B"
proof -
  have "\<bar>a * b\<bar> = \<bar>a\<bar> * \<bar>b\<bar>" by (rule abs_mult)
  also have "\<dots> \<le> A * B"
    using assms by (intro mult_mono) (auto intro: order_trans [OF abs_ge_zero])
  finally show ?thesis .
qed

lemma abs_div_le:
  fixes a d :: real
  assumes "\<bar>a\<bar> \<le> A" "1 \<le> d"
  shows "\<bar>a / d\<bar> \<le> A"
proof -
  have "\<bar>a / d\<bar> = \<bar>a\<bar> / d" using assms(2) by simp
  also have "\<dots> \<le> \<bar>a\<bar>" using assms(2) by (simp add: divide_le_eq mult_le_cancel_left1)
  finally show ?thesis using assms(1) by simp
qed

lemma moderateE:
  assumes "moderate x"
  obtains r where "x = Fin r" "\<bar>r\<bar> \<le> 2 ^ 31" "in_range r"
proof -
  from assms have "is_Fin x" "\<bar>the_Fin x\<bar> \<le> 2 ^ 31" by (simp_all add: moderate_def)
  then show ?thesis
    using that [of "the_Fin x"] by (simp add: Fin_the_Fin)
qed

lemma moderate_Fin: "\<bar>r\<bar> \<le> 2 ^ 31 \<Longrightarrow> moderate (Fin r)"
proof -
  assume a: "\<bar>r\<bar> \<le> 2 ^ 31"
  then have "in_range r" by (intro in_range_le) simp
  then show ?thesis using a by (simp add: moderate_def)
qed

lemma fsum_Fin_bounded:
  assumes "\<forall>x\<in>set xs. \<bar>x\<bar> \<le> C" "real (length xs) * C \<le> 2 ^ 127"
  shows "fsum (map Fin xs) = Fin (sum_list xs) \<and> \<bar>sum_list xs\<bar> \<le> real (length xs) * C"
  using assms
proof (induction xs)
  case Nil
  then show ?case by simp
next
  case (Cons x xs)
  have x: "\<bar>x\<bar> \<le> C" using Cons.prems(1) by simp
  then have C0: "0 \<le> C" by linarith
  have le: "real (length xs) * C \<le> real (length (x # xs)) * C"
    using C0 by (simp add: algebra_simps)
  have step: "real (length (x # xs)) * C = C + real (length xs) * C"
    by (simp add: algebra_simps)
  from Cons.IH have ih: "fsum (map Fin xs) = Fin (sum_list xs)"
      "\<bar>sum_list xs\<bar> \<le> real (length xs) * C"
    using Cons.prems le by auto
  have nn: "0 \<le> real (length xs) * C" using C0 by simp
  have r1: "in_range x"
    using x C0 Cons.prems(2) step nn by (intro in_range_le) linarith
  have r2: "in_range (sum_list xs)"
    using ih(2) le Cons.prems(2) by (intro in_range_le) linarith
  have "\<bar>x + sum_list xs\<bar> \<le> real (length (x # xs)) * C"
    using x ih(2) step by linarith
  then show ?case
    by (simp add: ih(1) r1 r2)
qed

lemma list_all_moderate:
  assumes "list_all moderate ys"
  shows "ys = map Fin (map the_Fin ys) \<and> (\<forall>x\<in>set (map the_Fin ys). \<bar>x\<bar> \<le> 2 ^ 31)"
  using assms by (induction ys) (auto simp: moderate_def Fin_the_Fin)

section \<open>\<^verbatim>\<open>Welford.update\<close> on values of moderate size\<close>

lemma count_in_range:
  assumes "0 \<le> k" "k < 2 ^ 31"
  shows "in_range (real_of_int k)" "\<bar>real_of_int k\<bar> \<le> 2 ^ 31" "0 \<le> real_of_int k"
proof -
  have "real_of_int k < 2 ^ 31"
    using assms(2) by (metis of_int_less_iff of_int_numeral of_int_power)
  then show b: "\<bar>real_of_int k\<bar> \<le> 2 ^ 31" using assms(1) by simp
  then show "in_range (real_of_int k)" by (intro in_range_le) simp
  show "0 \<le> real_of_int k" using assms(1) by simp
qed

lemma Welford_update_scalar_moderate:
  assumes kw: "kwargs (Welford.argname self) = Some v"
    and v: "v = PyFloat (Fin x) \<or> (\<exists>i. v = PyInt i \<and> weak_int_ok i \<and> x = real_of_int i)"
    and x: "\<bar>x\<bar> \<le> 2 ^ 31"
    and st: "Welford.mean self = Fin \<mu>" "m2 self = Fin M"
    and b: "\<bar>\<mu>\<bar> \<le> 2 ^ 31" "0 \<le> M" "M \<le> 2 ^ 65 * real_of_int (icell_int (Welford.count self))"
    and c: "0 \<le> icell_int (Welford.count self)"
           "icell_int (Welford.count self) + 1 < 2 ^ 31"
  shows "Welford_update self kwargs =
     Return (self\<lparr>Welford.count := icell_add (Welford.count self) 1,
                  Welford.mean := Fin (\<mu> + (x - \<mu>) / (real_of_int (icell_int (Welford.count self)) + 1)),
                  m2 := Fin (M + (x - \<mu>) * (x - \<mu>) * real_of_int (icell_int (Welford.count self))
                                 / (real_of_int (icell_int (Welford.count self)) + 1))\<rparr>)"
proof -
  define k where "k = real_of_int (icell_int (Welford.count self))"
  define d where "d = x - \<mu>"
  have lt: "icell_int (Welford.count self) + int 1 < icell_bound (Welford.count self)"
    using c(2) icell_bound_le [of "Welford.count self"] by simp
  have n: "icell_int (icell_add (Welford.count self) (Suc 0)) = icell_int (Welford.count self) + 1"
    using icell_int_add [OF lt] by simp
  have k: "0 \<le> k" "k \<le> 2 ^ 31" "in_range k"
    using count_in_range [of "icell_int (Welford.count self)"] c by (simp_all add: k_def)
  have k1: "in_range (k + 1)" "k + 1 \<noteq> 0" "1 \<le> k + 1"
    using k(1,2) by (auto intro!: in_range_le)
  have rx: "in_range x" using x by (intro in_range_le) simp
  have r\<mu>: "in_range \<mu>" using b(1) by (intro in_range_le) simp
  have d: "\<bar>d\<bar> \<le> 2 ^ 32" using x b(1) by (simp add: d_def)
  have rd: "in_range d" using d by (intro in_range_le) simp
  have dk: "\<bar>d / (k + 1)\<bar> \<le> 2 ^ 32" using abs_div_le [OF d k1(3)] .
  have rdk: "in_range (d / (k + 1))" using dk by (intro in_range_le) simp
  have dd: "\<bar>d * d\<bar> \<le> 2 ^ 64" using abs_mult_le [OF d d] by simp
  have rdd: "in_range (d * d)" using dd by (intro in_range_le) simp
  have ddk: "\<bar>d * d * k\<bar> \<le> 2 ^ 95"
    using abs_mult_le [OF dd, of k "2 ^ 31"] k(1,2) by simp
  have rddk: "in_range (d * d * k)" using ddk by (intro in_range_le) simp
  have q: "\<bar>d * d * k / (k + 1)\<bar> \<le> 2 ^ 95" using abs_div_le [OF ddk k1(3)] .
  have rq: "in_range (d * d * k / (k + 1))" using q by (intro in_range_le) simp
  have M: "M \<le> 2 ^ 96"
  proof -
    have "2 ^ 65 * k \<le> 2 ^ 65 * (2 ^ 31 :: real)" using k(2) by simp
    then show ?thesis using b(3) by (simp add: k_def)
  qed
  have rM: "in_range M" using M b(2) by (intro in_range_le) simp
  have xv: "(case v of PyInt i \<Rightarrow> weak_int i | PyFloat v \<Rightarrow> Inr v | Array a \<Rightarrow> Inr (mean_arr a))
              = Inr (Fin x)"
    using v by (auto simp: weak_int_def)
  have cnt: "(case v of Array a \<Rightarrow> size_arr a | _ \<Rightarrow> 1) = Suc 0"
    using v by auto
  have m2': "(case v of Array a \<Rightarrow> fmul (var_arr a) (nat_f32 (Suc 0)) | _ \<Rightarrow> Fin 0) = Fin 0"
    using v by auto
  have e1: "fsub (Fin x) (Fin \<mu>) = Fin d" by (simp add: rx r\<mu> d_def)
  have e2: "fmul (Fin d) (nat_f32 (Suc 0)) = Fin d" by (simp add: nat_f32_def rd)
  have e3: "icell_f32 (icell_add (Welford.count self) (Suc 0)) = Fin (k + 1)"
    by (simp add: icell_f32_def n k_def)
  have e4: "fadd (Fin \<mu>) (fdiv (Fin d) (Fin (k + 1))) = Fin (\<mu> + d / (k + 1))"
    by (simp add: rd k1 r\<mu> rdk)
  have e5: "fmul (fmul (fmul (Fin d) (Fin d)) (nat_f32 (Suc 0))) (icell_f32 (Welford.count self))
      = Fin (d * d * k)"
    by (simp add: nat_f32_def icell_f32_def rd rdd k k_def [symmetric])
  have e6: "fadd (Fin M) (fadd (Fin 0) (fdiv (Fin (d * d * k)) (Fin (k + 1))))
      = Fin (M + d * d * k / (k + 1))"
    by (simp add: rddk k1 rq rM)
  show ?thesis
    unfolding Welford_update_def kw option.case Let_def cnt xv m2'
    by (simp add: st weak_int_ok_def e1 e2 e3 e4 e5 e6 k_def [symmetric] d_def [symmetric])
qed


lemma sum_sq_dev:
  fixes b :: real
  shows "(\<Sum>x\<leftarrow>xs. (x - b) * (x - b)) =
         (\<Sum>x\<leftarrow>xs. x * x) - 2 * b * sum_list xs + real (length xs) * (b * b)"
  by (induction xs) (simp_all add: algebra_simps)

lemma abs_add_le:
  fixes a b :: real
  shows "\<bar>a\<bar> \<le> A \<Longrightarrow> \<bar>b\<bar> \<le> B \<Longrightarrow> A + B \<le> C \<Longrightarrow> \<bar>a + b\<bar> \<le> C"
  by linarith

lemma sum_list_sq_nonneg:
  fixes b :: real
  shows "0 \<le> (\<Sum>x\<leftarrow>xs. (x - b) * (x - b))"
  by (induction xs) simp_all

lemma length_in_range:
  assumes "xs \<noteq> []" "int (length xs) < 2 ^ 31"
  shows "in_range (real (length xs))" "1 \<le> real (length xs)" "real (length xs) \<le> 2 ^ 31"
    "real (length xs) \<noteq> 0"
proof -
  have "real_of_int (int (length xs)) < 2 ^ 31"
    using assms(2) by (metis of_int_less_iff of_int_numeral of_int_power)
  then show le: "real (length xs) \<le> 2 ^ 31" by simp
  then show "in_range (real (length xs))" by (intro in_range_le) simp
  have "0 < length xs" using assms(1) by simp
  then show "1 \<le> real (length xs)" by linarith
  then show "real (length xs) \<noteq> 0" by linarith
qed

lemma mean_arr_moderate:
  assumes a: "elems a = map Fin xs" "xs \<noteq> []"
    and xs: "\<forall>x\<in>set xs. \<bar>x\<bar> \<le> 2 ^ 31"
    and n: "int (length xs) < 2 ^ 31"
  shows "mean_arr a = Fin (sum_list xs / real (length xs))"
    and "\<bar>sum_list xs / real (length xs)\<bar> \<le> 2 ^ 31"
    and "\<bar>sum_list xs\<bar> \<le> real (length xs) * 2 ^ 31"
proof -
  note ln = length_in_range [OF a(2) n]
  have "real (length xs) * 2 ^ 31 \<le> (2 ^ 31 :: real) * 2 ^ 31"
    using ln(3) by (intro mult_right_mono) simp_all
  then have le: "real (length xs) * 2 ^ 31 \<le> (2 ^ 127 :: real)" by simp
  from fsum_Fin_bounded [OF xs le]
  have s: "fsum (map Fin xs) = Fin (sum_list xs)" "\<bar>sum_list xs\<bar> \<le> real (length xs) * 2 ^ 31"
    by simp_all
  show "\<bar>sum_list xs\<bar> \<le> real (length xs) * 2 ^ 31" by (rule s(2))
  have rs: "in_range (sum_list xs)" using s(2) le by (intro in_range_le) linarith
  show "mean_arr a = Fin (sum_list xs / real (length xs))"
    by (simp add: mean_arr_def size_arr_def a nat_f32_def s(1) rs ln)
  have "\<bar>sum_list xs / real (length xs)\<bar> = \<bar>sum_list xs\<bar> / real (length xs)"
    by simp
  also have "\<dots> \<le> 2 ^ 31"
    using s(2) ln(2) by (simp add: divide_le_eq mult.commute)
  finally show "\<bar>sum_list xs / real (length xs)\<bar> \<le> 2 ^ 31" .
qed

lemma var_arr_moderate:
  assumes a: "elems a = map Fin xs" "xs \<noteq> []"
    and xs: "\<forall>x\<in>set xs. \<bar>x\<bar> \<le> 2 ^ 31"
    and n: "int (length xs) < 2 ^ 31"
  shows "fmul (var_arr a) (nat_f32 (length xs)) =
           Fin (\<Sum>x\<leftarrow>xs. (x - sum_list xs / real (length xs)) * (x - sum_list xs / real (length xs)))"
    and "(\<Sum>x\<leftarrow>xs. (x - sum_list xs / real (length xs)) * (x - sum_list xs / real (length xs)))
           \<le> real (length xs) * 2 ^ 64"
proof -
  define b where "b = sum_list xs / real (length xs)"
  define sq where "sq = map (\<lambda>x. (x - b) * (x - b)) xs"
  note ln = length_in_range [OF a(2) n]
  note m = mean_arr_moderate [OF a xs n, folded b_def]
  have rb: "in_range b" using m(2) by (intro in_range_le) simp
  have el: "\<And>x. x \<in> set xs \<Longrightarrow> in_range x \<and> \<bar>x - b\<bar> \<le> 2 ^ 32"
  proof -
    fix x assume "x \<in> set xs"
    then have "\<bar>x\<bar> \<le> 2 ^ 31" using xs by simp
    then show "in_range x \<and> \<bar>x - b\<bar> \<le> 2 ^ 32"
      using m(2) by (auto intro!: in_range_le)
  qed
  have sqb: "\<forall>y\<in>set sq. \<bar>y\<bar> \<le> 2 ^ 64"
  proof
    fix y assume "y \<in> set sq"
    then obtain x where x: "x \<in> set xs" "y = (x - b) * (x - b)" by (auto simp: sq_def)
    have "\<bar>x - b\<bar> \<le> 2 ^ 32" using el [OF x(1)] by simp
    from abs_mult_le [OF this this] show "\<bar>y\<bar> \<le> 2 ^ 64" by (simp add: x(2))
  qed
  have c1: "map (\<lambda>d. fmul d d) (map (\<lambda>x. fsub x (Fin b)) (map Fin xs)) = map Fin sq"
    unfolding sq_def map_map
  proof (rule map_cong [OF refl])
    fix x assume x: "x \<in> set xs"
    have d: "in_range (x - b)" using el [OF x] by (intro in_range_le) simp
    show "((\<lambda>d. fmul d d) \<circ> ((\<lambda>x. fsub x (Fin b)) \<circ> Fin)) x = (Fin \<circ> (\<lambda>x. (x - b) * (x - b))) x"
      using el [OF x] rb d by simp
  qed
  have "real (length sq) * 2 ^ 64 \<le> (2 ^ 31 :: real) * 2 ^ 64"
    using ln(3) by (intro mult_right_mono) (simp_all add: sq_def)
  then have le: "real (length sq) * 2 ^ 64 \<le> (2 ^ 127 :: real)" by simp
  from fsum_Fin_bounded [OF sqb le]
  have s: "fsum (map Fin sq) = Fin (sum_list sq)" "\<bar>sum_list sq\<bar> \<le> real (length xs) * 2 ^ 64"
    by (simp_all add: sq_def)
  have rs: "in_range (sum_list sq)" using s(2) le by (intro in_range_le) (simp add: sq_def)
  have v: "\<bar>sum_list sq / real (length xs)\<bar> \<le> 2 ^ 64"
  proof -
    have "\<bar>sum_list sq / real (length xs)\<bar> = \<bar>sum_list sq\<bar> / real (length xs)" by simp
    also have "\<dots> \<le> 2 ^ 64"
      using s(2) ln(2) by (simp add: divide_le_eq mult.commute)
    finally show ?thesis .
  qed
  have rv: "in_range (sum_list sq / real (length xs))" using v by (intro in_range_le) simp
  have "var_arr a = fdiv (fsum (map Fin sq)) (Fin (real (length xs)))"
    unfolding var_arr_def Let_def m(1) a(1) c1 size_arr_def nat_f32_def by simp
  also have "\<dots> = Fin (sum_list sq / real (length xs))"
    by (simp add: s(1) rs ln a(2))
  finally have va: "var_arr a = Fin (sum_list sq / real (length xs))" .
  have "fmul (var_arr a) (nat_f32 (length xs)) = Fin (sum_list sq / real (length xs) * real (length xs))"
    by (simp add: va nat_f32_def rv ln a(2))
  also have "sum_list sq / real (length xs) * real (length xs) = sum_list sq"
    using ln(4) by simp
  finally show "fmul (var_arr a) (nat_f32 (length xs)) =
           Fin (\<Sum>x\<leftarrow>xs. (x - sum_list xs / real (length xs)) * (x - sum_list xs / real (length xs)))"
    by (simp add: sq_def b_def)
  show "(\<Sum>x\<leftarrow>xs. (x - sum_list xs / real (length xs)) * (x - sum_list xs / real (length xs)))
           \<le> real (length xs) * 2 ^ 64"
    using s(2) by (simp add: sq_def b_def)
qed

lemma Welford_update_array_moderate:
  assumes kw: "kwargs (Welford.argname self) = Some (Array a)"
    and a: "elems a = map Fin xs" "xs \<noteq> []"
    and xs: "\<forall>x\<in>set xs. \<bar>x\<bar> \<le> 2 ^ 31"
    and st: "Welford.mean self = Fin \<mu>" "m2 self = Fin M"
    and b: "\<bar>\<mu>\<bar> \<le> 2 ^ 31" "0 \<le> M" "M \<le> 2 ^ 65 * real_of_int (icell_int (Welford.count self))"
    and c: "0 \<le> icell_int (Welford.count self)"
           "icell_int (Welford.count self) + int (length xs) < 2 ^ 31"
  shows "Welford_update self kwargs =
     Return (self\<lparr>Welford.count := icell_add (Welford.count self) (length xs),
                  Welford.mean := Fin (\<mu> + (sum_list xs / real (length xs) - \<mu>) * real (length xs)
                     / (real_of_int (icell_int (Welford.count self)) + real (length xs))),
                  m2 := Fin (M +
                    ((\<Sum>x\<leftarrow>xs. (x - sum_list xs / real (length xs)) * (x - sum_list xs / real (length xs)))
                     + (sum_list xs / real (length xs) - \<mu>) * (sum_list xs / real (length xs) - \<mu>)
                        * real (length xs) * real_of_int (icell_int (Welford.count self))
                        / (real_of_int (icell_int (Welford.count self)) + real (length xs))))\<rparr>)"
proof -
  define k where "k = real_of_int (icell_int (Welford.count self))"
  define n where "n = real (length xs)"
  define bm where "bm = sum_list xs / real (length xs)"
  define Q where "Q = (\<Sum>x\<leftarrow>xs. (x - bm) * (x - bm))"
  define d where "d = bm - \<mu>"
  have nlt: "int (length xs) < 2 ^ 31" using c by linarith
  have klt: "icell_int (Welford.count self) < 2 ^ 31" using c by linarith
  note ln = length_in_range [OF a(2) nlt, folded n_def]
  note m = mean_arr_moderate [OF a xs nlt, folded bm_def]
  note var = var_arr_moderate [OF a xs nlt, folded bm_def, folded Q_def n_def]
  have lt: "icell_int (Welford.count self) + int (length xs) < icell_bound (Welford.count self)"
    using c(2) icell_bound_le [of "Welford.count self"] by linarith
  have cn: "icell_int (icell_add (Welford.count self) (length xs))
              = icell_int (Welford.count self) + int (length xs)"
    using icell_int_add [OF lt] .
  have k: "0 \<le> k" "k \<le> 2 ^ 31" "in_range k"
    using count_in_range [OF c(1) klt] by (simp_all add: k_def)
  have kn: "in_range (k + n)" "k + n \<noteq> 0" "1 \<le> k + n"
    using k(1,2) ln(2,3) by (auto intro!: in_range_le)
  have wok: "weak_int_ok (int (size_arr a))"
    using nlt by (simp add: weak_int_ok_def size_arr_def a)
  have r\<mu>: "in_range \<mu>" using b(1) by (intro in_range_le) simp
  have rbm: "in_range bm" using m(2) by (intro in_range_le) simp
  have d: "\<bar>d\<bar> \<le> 2 ^ 32" using m(2) b(1) by (simp add: d_def)
  have rd: "in_range d" using d by (intro in_range_le) simp
  have dn: "\<bar>d * n\<bar> \<le> 2 ^ 63" using abs_mult_le [OF d, of n "2 ^ 31"] ln(2,3) by simp
  have rdn: "in_range (d * n)" using dn by (intro in_range_le) simp
  have dnk: "\<bar>d * n / (k + n)\<bar> \<le> 2 ^ 63" using abs_div_le [OF dn kn(3)] .
  have rdnk: "in_range (d * n / (k + n))" using dnk by (intro in_range_le) simp
  have dd: "\<bar>d * d\<bar> \<le> 2 ^ 64" using abs_mult_le [OF d d] by simp
  have rdd: "in_range (d * d)" using dd by (intro in_range_le) simp
  have ddn: "\<bar>d * d * n\<bar> \<le> 2 ^ 95" using abs_mult_le [OF dd, of n "2 ^ 31"] ln(2,3) by simp
  have rddn: "in_range (d * d * n)" using ddn by (intro in_range_le) simp
  have ddnk: "\<bar>d * d * n * k\<bar> \<le> 2 ^ 126"
    using abs_mult_le [OF ddn, of k "2 ^ 31"] k(1,2) by simp
  have rddnk: "in_range (d * d * n * k)" using ddnk by (intro in_range_le) simp
  have q: "\<bar>d * d * n * k / (k + n)\<bar> \<le> 2 ^ 126" using abs_div_le [OF ddnk kn(3)] .
  have rq: "in_range (d * d * n * k / (k + n))" using q by (intro in_range_le) simp
  have Q0: "0 \<le> Q" unfolding Q_def by (rule sum_list_sq_nonneg)
  have Q95: "Q \<le> 2 ^ 95"
  proof -
    have "n * 2 ^ 64 \<le> (2 ^ 31 :: real) * 2 ^ 64" using ln(3) by (intro mult_right_mono) simp_all
    then show ?thesis using var(2) by simp
  qed
  have rQ: "in_range Q" using Q0 Q95 by (intro in_range_le) simp
  have rQq: "in_range (Q + d * d * n * k / (k + n))"
  proof (rule in_range_le)
    have "\<bar>Q\<bar> \<le> 2 ^ 95" using Q0 Q95 by simp
    from abs_add_le [OF this q] show "\<bar>Q + d * d * n * k / (k + n)\<bar> \<le> 2 ^ 127" by simp
  qed
  have M: "M \<le> 2 ^ 96"
  proof -
    have "2 ^ 65 * k \<le> 2 ^ 65 * (2 ^ 31 :: real)" using k(2) by simp
    then show ?thesis using b(3) by (simp add: k_def)
  qed
  have rM: "in_range M" using M b(2) by (intro in_range_le) simp
  have e1: "fsub (Fin bm) (Fin \<mu>) = Fin d" by (simp add: rbm r\<mu> d_def)
  have e2: "fmul (Fin d) (nat_f32 (length xs)) = Fin (d * n)"
    by (simp add: nat_f32_def rd ln n_def [symmetric])
  have e3: "icell_f32 (icell_add (Welford.count self) (length xs)) = Fin (k + n)"
    by (simp add: icell_f32_def cn k_def n_def)
  have e4: "fadd (Fin \<mu>) (fdiv (Fin (d * n)) (Fin (k + n))) = Fin (\<mu> + d * n / (k + n))"
    by (simp add: rdn kn r\<mu> rdnk)
  have e5: "fmul (fmul (fmul (Fin d) (Fin d)) (nat_f32 (length xs))) (icell_f32 (Welford.count self))
      = Fin (d * d * n * k)"
    by (simp add: nat_f32_def icell_f32_def rd rdd rddn ln k k_def [symmetric] n_def [symmetric])
  have e6: "fadd (Fin M) (fadd (Fin Q) (fdiv (Fin (d * d * n * k)) (Fin (k + n))))
      = Fin (M + (Q + d * d * n * k / (k + n)))"
    by (simp add: rddnk kn rq rM rQ rQq)
  have sz: "size_arr a = length xs" by (simp add: size_arr_def a)
  show ?thesis
    unfolding Welford_update_def kw option.case Let_def pyval.case sz
    using wok
    by (simp add: st sz m(1) var(1) e1 e2 e3 e4 e5 e6)
       (simp add: d_def Q_def bm_def n_def k_def)
qed


section \<open>The sums a state stands for\<close>

lemma scalar_moments:
  fixes c :: real
  assumes "0 \<le> c"
  shows scalar_moment1: "(c + 1) * (\<mu> + (x - \<mu>) / (c + 1)) = c * \<mu> + x"
    and scalar_moment2: "M + (x - \<mu>) * (x - \<mu>) * c / (c + 1)
           + (c + 1) * ((\<mu> + (x - \<mu>) / (c + 1)) * (\<mu> + (x - \<mu>) / (c + 1)))
         = M + c * (\<mu> * \<mu>) + x * x"
proof -
  define t where "t = (x - \<mu>) / (c + 1)"
  have nz: "c + 1 \<noteq> 0" using assms by linarith
  have t: "(c + 1) * t = x - \<mu>"
    using nz by (simp add: t_def)
  have q: "(x - \<mu>) * (x - \<mu>) * c / (c + 1) = (x - \<mu>) * c * t"
    by (simp add: t_def)
  show "(c + 1) * (\<mu> + (x - \<mu>) / (c + 1)) = c * \<mu> + x"
    unfolding t_def [symmetric] using t by algebra
  show "M + (x - \<mu>) * (x - \<mu>) * c / (c + 1)
           + (c + 1) * ((\<mu> + (x - \<mu>) / (c + 1)) * (\<mu> + (x - \<mu>) / (c + 1)))
         = M + c * (\<mu> * \<mu>) + x * x"
    unfolding q unfolding t_def [symmetric] using t by algebra
qed

lemma batch_moments:
  fixes c k :: real
  assumes "0 \<le> c" "0 < k"
  shows batch_moment1: "(c + k) * (\<mu> + (S / k - \<mu>) * k / (c + k)) = c * \<mu> + S"
    and batch_moment2: "M + ((Q - 2 * (S / k) * S + k * (S / k * (S / k)))
              + (S / k - \<mu>) * (S / k - \<mu>) * k * c / (c + k))
           + (c + k) * ((\<mu> + (S / k - \<mu>) * k / (c + k)) * (\<mu> + (S / k - \<mu>) * k / (c + k)))
         = M + c * (\<mu> * \<mu>) + Q"
proof -
  define b where "b = S / k"
  define t where "t = (b - \<mu>) * k / (c + k)"
  have nz: "c + k \<noteq> 0" "k \<noteq> 0" using assms by linarith+
  have b: "k * b = S" using nz by (simp add: b_def)
  have t: "(c + k) * t = (b - \<mu>) * k"
    using nz by (simp add: t_def)
  have q: "(b - \<mu>) * (b - \<mu>) * k * c / (c + k) = (b - \<mu>) * c * t"
    by (simp add: t_def)
  show "(c + k) * (\<mu> + (S / k - \<mu>) * k / (c + k)) = c * \<mu> + S"
    unfolding b_def [symmetric] t_def [symmetric] using t b by algebra
  show "M + ((Q - 2 * (S / k) * S + k * (S / k * (S / k)))
              + (S / k - \<mu>) * (S / k - \<mu>) * k * c / (c + k))
           + (c + k) * ((\<mu> + (S / k - \<mu>) * k / (c + k)) * (\<mu> + (S / k - \<mu>) * k / (c + k)))
         = M + c * (\<mu> * \<mu>) + Q"
    unfolding b_def [symmetric] unfolding q unfolding t_def [symmetric] using t b by algebra
qed

lemma convex_bound:
  fixes k n m :: real
  assumes "0 \<le> k" "0 < n" "(k + n) * m = k * \<mu> + S" "\<bar>\<mu>\<bar> \<le> B" "\<bar>S\<bar> \<le> n * B"
  shows "\<bar>m\<bar> \<le> B"
proof -
  have "k * \<bar>\<mu>\<bar> \<le> k * B" using assms(1,4) by (rule mult_left_mono [rotated]) 
  moreover have "\<bar>k * \<mu>\<bar> = k * \<bar>\<mu>\<bar>" using assms(1) by (simp add: abs_mult)
  ultimately have "\<bar>k * \<mu> + S\<bar> \<le> k * B + n * B" using assms(5) by linarith
  then have "\<bar>(k + n) * m\<bar> \<le> (k + n) * B" using assms(3) by (simp add: algebra_simps)
  moreover have "\<bar>(k + n) * m\<bar> = (k + n) * \<bar>m\<bar>" using assms(1,2) by (simp add: abs_mult)
  ultimately have "(k + n) * \<bar>m\<bar> \<le> (k + n) * B" by simp
  then show ?thesis using assms(1,2) by (simp add: mult_le_cancel_left)
qed

lemma m2_bound:
  fixes k n d M Q :: real
  assumes "0 \<le> k" "1 \<le> n" "\<bar>d\<bar> \<le> 2 ^ 32" "0 \<le> M" "M \<le> 2 ^ 65 * k"
    and "0 \<le> Q" "Q \<le> n * 2 ^ 64"
  shows "0 \<le> M + (Q + d * d * n * k / (k + n))"
    and "M + (Q + d * d * n * k / (k + n)) \<le> 2 ^ 65 * (k + n)"
proof -
  define t where "t = d * d * n * k / (k + n)"
  have dd0: "0 \<le> d * d" by simp
  have dd: "d * d \<le> 2 ^ 64" using abs_mult_le [OF assms(3) assms(3)] by simp
  have ddn0: "0 \<le> d * d * n" using dd0 assms(2) by simp
  have ddn: "d * d * n \<le> 2 ^ 64 * n" using dd assms(2) by (intro mult_right_mono) simp_all
  have "0 \<le> d * d * n * k" using ddn0 assms(1) by (rule mult_nonneg_nonneg)
  then have t0: "0 \<le> t"
    unfolding t_def using assms(1,2) by (intro divide_nonneg_nonneg) simp_all
  have "t = (d * d * n) * (k / (k + n))" by (simp add: t_def)
  also have "\<dots> \<le> (d * d * n) * 1"
    using ddn0 assms(1,2) by (intro mult_left_mono) (simp_all add: divide_le_eq)
  finally have t1: "t \<le> 2 ^ 64 * n" using ddn by simp
  show "0 \<le> M + (Q + d * d * n * k / (k + n))"
    using assms(4,6) t0 by (simp add: t_def)
  have "M + (Q + t) \<le> 2 ^ 65 * (k + n)"
    using assms(5,7) t1 by (simp add: algebra_simps)
  then show "M + (Q + d * d * n * k / (k + n)) \<le> 2 ^ 65 * (k + n)"
    by (simp add: t_def)
qed

lemma moderate_stateE:
  assumes "moderate_state self"
  obtains \<mu> M where "Welford.mean self = Fin \<mu>" "m2 self = Fin M" "\<bar>\<mu>\<bar> \<le> 2 ^ 31"
    "0 \<le> M" "M \<le> 2 ^ 65 * real_of_int (icell_int (Welford.count self))"
    "0 \<le> icell_int (Welford.count self)" "in_range \<mu>" "in_range M"
proof -
  from assms have m: "moderate (Welford.mean self)" and f: "is_Fin (m2 self)"
    and b: "0 \<le> the_Fin (m2 self)"
      "the_Fin (m2 self) \<le> 2 ^ 65 * real_of_int (icell_int (Welford.count self))"
    and c: "0 \<le> icell_int (Welford.count self)"
    by (simp_all add: moderate_state_def)
  from m obtain \<mu> where \<mu>: "Welford.mean self = Fin \<mu>" "\<bar>\<mu>\<bar> \<le> 2 ^ 31" "in_range \<mu>"
    by (rule moderateE)
  have M: "m2 self = Fin (the_Fin (m2 self))" using f by (simp add: Fin_the_Fin)
  show ?thesis
    using that [OF \<mu>(1) M \<mu>(2) b c \<mu>(3)] by simp
qed

lemma moderate_stateI:
  assumes "Welford.mean self = Fin \<mu>" "m2 self = Fin M" "\<bar>\<mu>\<bar> \<le> 2 ^ 31"
    "0 \<le> M" "M \<le> 2 ^ 65 * real_of_int (icell_int (Welford.count self))"
    "0 \<le> icell_int (Welford.count self)" "icell_int (Welford.count self) < 2 ^ 31"
  shows "moderate_state self" "the_Fin (Welford.mean self) = \<mu>" "the_Fin (m2 self) = M"
proof -
  have r\<mu>: "in_range \<mu>" using assms(3) by (intro in_range_le) simp
  have k: "real_of_int (icell_int (Welford.count self)) \<le> 2 ^ 31"
    using count_in_range [OF assms(6,7)] by simp
  have "2 ^ 65 * real_of_int (icell_int (Welford.count self)) \<le> 2 ^ 65 * (2 ^ 31 :: real)"
    using k by simp
  then have "M \<le> 2 ^ 96" using assms(5) by simp
  then have rM: "in_range M" using assms(4) by (intro in_range_le) simp
  show "the_Fin (Welford.mean self) = \<mu>" "the_Fin (m2 self) = M"
    by (simp_all add: assms(1,2) r\<mu> rM)
  show "moderate_state self"
    using assms(3-6) by (simp add: moderate_state_def moderate_def assms(1,2) r\<mu> rM)
qed

lemma Welford_step_scalar:
  assumes kw: "kwargs (Welford.argname self) = Some v"
    and v: "v = PyFloat (Fin x) \<or> (\<exists>i. v = PyInt i \<and> weak_int_ok i \<and> x = real_of_int i)"
    and x: "\<bar>x\<bar> \<le> 2 ^ 31"
    and ms: "moderate_state self"
    and c: "icell_int (Welford.count self) + 1 < 2 ^ 31"
  shows "\<exists>self'. Welford_update self kwargs = Return self' \<and> moderate_state self' \<and>
           Welford.argname self' = Welford.argname self \<and>
           Welford.count self' = icell_add (Welford.count self) 1 \<and>
           count_real self' = count_real self + 1 \<and>
           moment1 self' = moment1 self + x \<and>
           moment2 self' = moment2 self + x * x"
proof -
  from ms obtain \<mu> M where st: "Welford.mean self = Fin \<mu>" "m2 self = Fin M"
    and b: "\<bar>\<mu>\<bar> \<le> 2 ^ 31" "0 \<le> M" "M \<le> 2 ^ 65 * real_of_int (icell_int (Welford.count self))"
    and c0: "0 \<le> icell_int (Welford.count self)" and r: "in_range \<mu>" "in_range M"
    by (rule moderate_stateE)
  define k where "k = real_of_int (icell_int (Welford.count self))"
  define self' where "self' = self\<lparr>Welford.count := icell_add (Welford.count self) 1,
                  Welford.mean := Fin (\<mu> + (x - \<mu>) / (k + 1)),
                  m2 := Fin (M + (x - \<mu>) * (x - \<mu>) * k / (k + 1))\<rparr>"
  have upd: "Welford_update self kwargs = Return self'"
    unfolding self'_def k_def
    by (rule Welford_update_scalar_moderate [where kwargs = kwargs and self = self,
          OF kw v x st b c0 c])
  have lt: "icell_int (Welford.count self) + int 1 < icell_bound (Welford.count self)"
    using c icell_bound_le [of "Welford.count self"] by simp
  have n: "icell_int (Welford.count self') = icell_int (Welford.count self) + 1"
    using icell_int_add [OF lt] by (simp add: self'_def)
  have k0: "0 \<le> k" using c0 by (simp add: k_def)
  have k': "real_of_int (icell_int (Welford.count self')) = k + 1"
    by (simp add: n k_def)
  note m1 = scalar_moment1 [OF k0, of \<mu> x]
  note m2 = scalar_moment2 [OF k0, of M x \<mu>]
  have d: "\<bar>x - \<mu>\<bar> \<le> 2 ^ 32" using x b(1) by simp
  have mb: "\<bar>\<mu> + (x - \<mu>) / (k + 1)\<bar> \<le> 2 ^ 31"
    using x by (intro convex_bound [OF k0 _ m1 b(1)]) simp_all
  from m2_bound [OF k0 _ d b(2) b(3) [folded k_def], of 1 0]
  have Mb: "0 \<le> M + (x - \<mu>) * (x - \<mu>) * k / (k + 1)"
    "M + (x - \<mu>) * (x - \<mu>) * k / (k + 1) \<le> 2 ^ 65 * (k + 1)"
    by simp_all
  have I: "moderate_state self'" "the_Fin (Welford.mean self') = \<mu> + (x - \<mu>) / (k + 1)"
    "the_Fin (m2 self') = M + (x - \<mu>) * (x - \<mu>) * k / (k + 1)"
  proof -
    have a1: "Welford.mean self' = Fin (\<mu> + (x - \<mu>) / (k + 1))" by (simp add: self'_def)
    have a2: "m2 self' = Fin (M + (x - \<mu>) * (x - \<mu>) * k / (k + 1))" by (simp add: self'_def)
    have a5: "M + (x - \<mu>) * (x - \<mu>) * k / (k + 1)
        \<le> 2 ^ 65 * real_of_int (icell_int (Welford.count self'))"
      using Mb(2) by (simp only: k')
    have a6: "0 \<le> icell_int (Welford.count self')" using c0 n by simp
    have a7: "icell_int (Welford.count self') < 2 ^ 31" using c n by simp
    note R = moderate_stateI [OF a1 a2 mb Mb(1) a5 a6 a7]
    show "moderate_state self'" by (rule R(1))
    show "the_Fin (Welford.mean self') = \<mu> + (x - \<mu>) / (k + 1)" by (rule R(2))
    show "the_Fin (m2 self') = M + (x - \<mu>) * (x - \<mu>) * k / (k + 1)" by (rule R(3))
  qed
  have old: "the_Fin (Welford.mean self) = \<mu>" "the_Fin (m2 self) = M"
    by (simp_all add: st r)
  show ?thesis
  proof (intro exI [of _ self'] conjI)
    show "Welford_update self kwargs = Return self'" by (rule upd)
    show "moderate_state self'" by (rule I(1))
    show "Welford.argname self' = Welford.argname self" by (simp add: self'_def)
    show "Welford.count self' = icell_add (Welford.count self) 1" by (simp add: self'_def)
    show "count_real self' = count_real self + 1"
      by (simp add: count_real_def k' k_def)
    show "moment1 self' = moment1 self + x"
      unfolding moment1_def count_real_def k' I(2) old k_def [symmetric] by (rule m1)
    show "moment2 self' = moment2 self + x * x"
      unfolding moment2_def count_real_def k' I(2,3) old k_def [symmetric] using m2 by simp
  qed
qed


lemma abs_diff_le:
  fixes a b :: real
  shows "\<bar>a\<bar> \<le> A \<Longrightarrow> \<bar>b\<bar> \<le> B \<Longrightarrow> A + B \<le> C \<Longrightarrow> \<bar>a - b\<bar> \<le> C"
  by linarith

lemma Welford_step_array:
  assumes kw: "kwargs (Welford.argname self) = Some (Array a)"
    and a: "elems a = map Fin xs" "xs \<noteq> []"
    and xs: "\<forall>x\<in>set xs. \<bar>x\<bar> \<le> 2 ^ 31"
    and ms: "moderate_state self"
    and c: "icell_int (Welford.count self) + int (length xs) < 2 ^ 31"
  shows "\<exists>self'. Welford_update self kwargs = Return self' \<and> moderate_state self' \<and>
           Welford.argname self' = Welford.argname self \<and>
           Welford.count self' = icell_add (Welford.count self) (length xs) \<and>
           count_real self' = count_real self + real (length xs) \<and>
           moment1 self' = moment1 self + sum_list xs \<and>
           moment2 self' = moment2 self + (\<Sum>x\<leftarrow>xs. x * x)"
proof -
  from ms obtain \<mu> M where st: "Welford.mean self = Fin \<mu>" "m2 self = Fin M"
    and b: "\<bar>\<mu>\<bar> \<le> 2 ^ 31" "0 \<le> M" "M \<le> 2 ^ 65 * real_of_int (icell_int (Welford.count self))"
    and c0: "0 \<le> icell_int (Welford.count self)" and r: "in_range \<mu>" "in_range M"
    by (rule moderate_stateE)
  define k where "k = real_of_int (icell_int (Welford.count self))"
  define n where "n = real (length xs)"
  define S where "S = sum_list xs"
  define Q where "Q = (\<Sum>x\<leftarrow>xs. (x - S / n) * (x - S / n))"
  define \<mu>' where "\<mu>' = \<mu> + (S / n - \<mu>) * n / (k + n)"
  define M' where "M' = M + (Q + (S / n - \<mu>) * (S / n - \<mu>) * n * k / (k + n))"
  define self' where "self' = self\<lparr>Welford.count := icell_add (Welford.count self) (length xs),
                  Welford.mean := Fin \<mu>', m2 := Fin M'\<rparr>"
  have upd: "Welford_update self kwargs = Return self'"
    unfolding self'_def \<mu>'_def M'_def Q_def S_def n_def k_def
    by (rule Welford_update_array_moderate [where kwargs = kwargs and self = self,
          OF kw a xs st b c0 c])
  have nlt: "int (length xs) < 2 ^ 31" using c c0 by linarith
  note ln = length_in_range [OF a(2) nlt, folded n_def]
  note m = mean_arr_moderate [OF a xs nlt, folded S_def n_def]
  note var = var_arr_moderate [OF a xs nlt, folded S_def n_def, folded Q_def]
  have lt: "icell_int (Welford.count self) + int (length xs) < icell_bound (Welford.count self)"
    using c icell_bound_le [of "Welford.count self"] by linarith
  have cn: "icell_int (Welford.count self') = icell_int (Welford.count self) + int (length xs)"
    using icell_int_add [OF lt] by (simp add: self'_def)
  have k0: "0 \<le> k" using c0 by (simp add: k_def)
  have n0: "0 < n" using ln(2) by linarith
  have k': "real_of_int (icell_int (Welford.count self')) = k + n"
    by (simp add: cn k_def n_def)
  note m1 = batch_moment1 [OF k0 n0, of \<mu> S, folded \<mu>'_def]
  have Qeq: "Q = (\<Sum>x\<leftarrow>xs. x * x) - 2 * (S / n) * S + n * (S / n * (S / n))"
    unfolding Q_def S_def n_def by (rule sum_sq_dev)
  have m2: "M' + (k + n) * (\<mu>' * \<mu>') = M + k * (\<mu> * \<mu>) + (\<Sum>x\<leftarrow>xs. x * x)"
    unfolding M'_def \<mu>'_def Qeq
    by (rule batch_moment2 [OF k0 n0])
  have d: "\<bar>S / n - \<mu>\<bar> \<le> 2 ^ 32" by (rule abs_diff_le [OF m(2) b(1)]) simp
  have mb: "\<bar>\<mu>'\<bar> \<le> 2 ^ 31"
    by (rule convex_bound [OF k0 n0 m1 b(1) m(3)])
  have Q0: "0 \<le> Q" unfolding Q_def by (rule sum_list_sq_nonneg)
  from m2_bound [OF k0 ln(2) d b(2) b(3) [folded k_def] Q0 var(2)]
  have Mb: "0 \<le> M'" "M' \<le> 2 ^ 65 * (k + n)"
    by (simp_all add: M'_def)
  have a1: "Welford.mean self' = Fin \<mu>'" by (simp add: self'_def)
  have a2: "m2 self' = Fin M'" by (simp add: self'_def)
  have a5: "M' \<le> 2 ^ 65 * real_of_int (icell_int (Welford.count self'))"
    using Mb(2) by (simp only: k')
  have a6: "0 \<le> icell_int (Welford.count self')" using c0 cn by simp
  have a7: "icell_int (Welford.count self') < 2 ^ 31" using c cn by simp
  note I = moderate_stateI [OF a1 a2 mb Mb(1) a5 a6 a7]
  have old: "the_Fin (Welford.mean self) = \<mu>" "the_Fin (m2 self) = M"
    by (simp_all add: st r)
  show ?thesis
  proof (intro exI [of _ self'] conjI)
    show "Welford_update self kwargs = Return self'" by (rule upd)
    show "moderate_state self'" by (rule I(1))
    show "Welford.argname self' = Welford.argname self" by (simp add: self'_def)
    show "Welford.count self' = icell_add (Welford.count self) (length xs)"
      by (simp add: self'_def)
    show "count_real self' = count_real self + real (length xs)"
      by (simp add: count_real_def k' k_def n_def)
    show "moment1 self' = moment1 self + sum_list xs"
      unfolding moment1_def count_real_def k' I(2) old k_def [symmetric] S_def [symmetric]
      by (rule m1)
    show "moment2 self' = moment2 self + (\<Sum>x\<leftarrow>xs. x * x)"
      unfolding moment2_def count_real_def k' I(2,3) old k_def [symmetric] using m2 by simp
  qed
qed

lemma Welford_moments_determine:
  assumes "moderate_state s" "moderate_state t"
    and "count_real s = count_real t" "0 < count_real s"
    and "moment1 s = moment1 t" "moment2 s = moment2 t"
  shows "Welford.mean s = Welford.mean t \<and> m2 s = m2 t"
proof -
  from assms(1) obtain a M where s: "Welford.mean s = Fin a" "m2 s = Fin M"
    "in_range a" "in_range M"
    by (rule moderate_stateE)
  from assms(2) obtain b N where t: "Welford.mean t = Fin b" "m2 t = Fin N"
    "in_range b" "in_range N"
    by (rule moderate_stateE)
  have "a = b" using assms(3,4,5) by (simp add: moment1_def s t)
  moreover from this have "M = N" using assms(3,6) by (simp add: moment2_def s t)
  ultimately show ?thesis by (simp add: s t)
qed

lemma Welford_step:
  assumes kw: "kwargs (Welford.argname self) = Some v"
    and v: "moderate_value v" "nonempty_value v"
    and ms: "moderate_state self"
    and c: "icell_int (Welford.count self) + int (length (values_of v)) < 2 ^ 31"
  shows "\<exists>self'. Welford_update self kwargs = Return self' \<and> moderate_state self' \<and>
           Welford.argname self' = Welford.argname self \<and>
           Welford.count self' = icell_add (Welford.count self) (length (values_of v)) \<and>
           count_real self' = count_real self + real (length (values_of v)) \<and>
           moment1 self' = moment1 self + sum_list (map the_Fin (values_of v)) \<and>
           moment2 self' = moment2 self + (\<Sum>x\<leftarrow>map the_Fin (values_of v). x * x)"
proof (cases v)
  case (PyInt i)
  with v have ok: "weak_int_ok i" by simp
  then have "\<bar>i\<bar> \<le> 2 ^ 31" unfolding weak_int_ok_def by linarith
  then have "\<bar>real_of_int i\<bar> \<le> 2 ^ 31"
    by (metis of_int_abs of_int_le_iff of_int_numeral of_int_power)
  then have b: "\<bar>real_of_int i\<bar> \<le> 2 ^ 31" "in_range (real_of_int i)"
    by (auto intro!: in_range_le)
  have vv: "v = PyFloat (Fin (real_of_int i)) \<or>
      (\<exists>j. v = PyInt j \<and> weak_int_ok j \<and> real_of_int i = real_of_int j)"
    using PyInt ok by simp
  show ?thesis
    using Welford_step_scalar [where kwargs = kwargs and self = self, OF kw vv b(1) ms] c b(2)
    by (simp add: PyInt)
next
  case (PyFloat y)
  with v obtain r where r: "y = Fin r" "\<bar>r\<bar> \<le> 2 ^ 31" "in_range r"
    by (auto elim: moderateE)
  have vv: "v = PyFloat (Fin r) \<or> (\<exists>j. v = PyInt j \<and> weak_int_ok j \<and> r = real_of_int j)"
    using PyFloat r by simp
  show ?thesis
    using Welford_step_scalar [where kwargs = kwargs and self = self, OF kw vv r(2) ms] c r(3)
    by (simp add: PyFloat r(1))
next
  case (Array a)
  with v have "list_all moderate (elems a)" "elems a \<noteq> []" by simp_all
  with list_all_moderate [of "elems a"]
  have a: "elems a = map Fin (map the_Fin (elems a))" "map the_Fin (elems a) \<noteq> []"
    and xs: "\<forall>x\<in>set (map the_Fin (elems a)). \<bar>x\<bar> \<le> 2 ^ 31"
    by simp_all
  show ?thesis
    using Welford_step_array [where kwargs = kwargs and self = self, OF _ a xs ms] kw c
    by (simp add: Array)
qed

lemma Welford_run:
  assumes "list_all moderate_value vals" "list_all nonempty_value vals"
    and "moderate_state self"
    and "icell_int (Welford.count self) + int (length (all_values vals)) < 2 ^ 31"
  shows "\<exists>self'. update_all Welford_update self
             (map (\<lambda>v. [Welford.argname self \<mapsto> v]) vals) = Return self' \<and>
           moderate_state self' \<and>
           Welford.argname self' = Welford.argname self \<and>
           Welford.count self' = icell_add (Welford.count self) (length (all_values vals)) \<and>
           count_real self' = count_real self + real (length (all_values vals)) \<and>
           moment1 self' = moment1 self + sum_list (map the_Fin (all_values vals)) \<and>
           moment2 self' = moment2 self + (\<Sum>x\<leftarrow>map the_Fin (all_values vals). x * x)"
  using assms
proof (induction vals arbitrary: self)
  case Nil
  then show ?case by (simp add: all_values_def icell_add_zero)
next
  case (Cons v vals)
  have kw: "[Welford.argname self \<mapsto> v] (Welford.argname self) = Some v" by simp
  have c0: "0 \<le> icell_int (Welford.count self)"
    using Cons.prems(3) by (simp add: moderate_state_def)
  have c1: "icell_int (Welford.count self) + int (length (values_of v)) < 2 ^ 31"
    using Cons.prems(4) by (simp add: all_values_def)
  have fv: "moderate_value v" "list_all moderate_value vals"
    "nonempty_value v" "list_all nonempty_value vals"
    using Cons.prems(1,2) by simp_all
  from Welford_step [where kwargs = "[Welford.argname self \<mapsto> v]" and self = self,
      OF kw fv(1) fv(3) Cons.prems(3) c1]
  obtain s1 where s1: "Welford_update self [Welford.argname self \<mapsto> v] = Return s1"
    "moderate_state s1" "Welford.argname s1 = Welford.argname self"
    "Welford.count s1 = icell_add (Welford.count self) (length (values_of v))"
    "count_real s1 = count_real self + real (length (values_of v))"
    "moment1 s1 = moment1 self + sum_list (map the_Fin (values_of v))"
    "moment2 s1 = moment2 self + (\<Sum>x\<leftarrow>map the_Fin (values_of v). x * x)"
    by blast
  have lt: "icell_int (Welford.count self) + int (length (values_of v))
      < icell_bound (Welford.count self)"
    using c1 icell_bound_le [of "Welford.count self"] by linarith
  have c2: "icell_int (Welford.count s1) + int (length (all_values vals)) < 2 ^ 31"
    using Cons.prems(4)
    by (simp add: s1(4) icell_int_add [OF lt] all_values_def)
  from Cons.IH [OF fv(2) fv(4) s1(2) c2]
  obtain s2 where s2: "update_all Welford_update s1
        (map (\<lambda>v. [Welford.argname s1 \<mapsto> v]) vals) = Return s2"
    "moderate_state s2" "Welford.argname s2 = Welford.argname s1"
    "Welford.count s2 = icell_add (Welford.count s1) (length (all_values vals))"
    "count_real s2 = count_real s1 + real (length (all_values vals))"
    "moment1 s2 = moment1 s1 + sum_list (map the_Fin (all_values vals))"
    "moment2 s2 = moment2 s1 + (\<Sum>x\<leftarrow>map the_Fin (all_values vals). x * x)"
    by blast
  have av: "all_values (v # vals) = values_of v @ all_values vals"
    by (simp add: all_values_def)
  show ?case
  proof (intro exI [of _ s2] conjI)
    show "update_all Welford_update self
            (map (\<lambda>v. [Welford.argname self \<mapsto> v]) (v # vals)) = Return s2"
      using s1(1) s2(1) unfolding s1(3)
      by (simp only: list.map update_all.simps outcome.case)
    show "moderate_state s2" by (rule s2(2))
    show "Welford.argname s2 = Welford.argname self" by (simp only: s2(3) s1(3))
    show "Welford.count s2 = icell_add (Welford.count self) (length (all_values (v # vals)))"
      by (simp only: s2(4) s1(4) icell_add_add av length_append)
    show "count_real s2 = count_real self + real (length (all_values (v # vals)))"
      by (simp add: s2(5) s1(5) av)
    show "moment1 s2 = moment1 self + sum_list (map the_Fin (all_values (v # vals)))"
      by (simp add: s2(6) s1(6) av)
    show "moment2 s2 = moment2 self + (\<Sum>x\<leftarrow>map the_Fin (all_values (v # vals)). x * x)"
      by (simp add: s2(7) s1(7) av)
  qed
qed


section \<open>\<^verbatim>\<open>Welford\<close> against the two-pass statistics\<close>

lemma method_call_body:
  "kwargs ''self'' = None \<Longrightarrow> method_call body self kwargs = body self kwargs"
  by (simp add: method_call_def)

lemma update_all_method_call:
  "\<forall>kw\<in>set kws. kw ''self'' = None \<Longrightarrow>
     update_all (method_call upd) self kws = update_all upd self kws"
  by (induction kws arbitrary: self) (simp_all add: method_call_def split: outcome.splits)

lemma update_all_named:
  "an \<noteq> ''self'' \<Longrightarrow>
     update_all (method_call upd) self (map (\<lambda>v. [an \<mapsto> v]) vals)
       = update_all upd self (map (\<lambda>v. [an \<mapsto> v]) vals)"
  by (rule update_all_method_call) auto

lemma sqrt_le_Suc:
  fixes y :: real
  assumes "0 \<le> y"
  shows "sqrt y \<le> 1 + y"
proof (rule real_le_lsqrt)
  show "0 \<le> 1 + y" using assms by simp
  have "0 \<le> y * y" by simp
  then show "y \<le> (1 + y)\<^sup>2" using assms by (simp add: power2_eq_square algebra_simps)
qed

lemma Welford_compute_moderate:
  assumes st: "Welford.mean self = Fin \<mu>" "m2 self = Fin M"
    and k: "icell_int (Welford.count self) = int k" "0 < k" "int k < 2 ^ 31"
    and M: "0 \<le> M" "M \<le> 2 ^ 65 * real k"
  shows "Welford_compute self =
     \<lparr>Statistics.mean = Fin \<mu>,
      standard_error_of_mean = Fin (sqrt (M / real k) / sqrt (real k)),
      standard_deviation = Fin (sqrt (M / real k))\<rparr>"
    and "in_range (sqrt (M / real k))" "in_range (sqrt (M / real k) / sqrt (real k))"
proof -
  have kr: "in_range (real k)" "real k \<le> 2 ^ 31" "0 \<le> real k"
    using count_in_range [of "int k"] k(2,3) by simp_all
  have k1: "1 \<le> real k" "real k \<noteq> 0" using k(2) by simp_all
  have "2 ^ 65 * real k \<le> 2 ^ 65 * (2 ^ 31 :: real)" using kr(2) by simp
  then have "M \<le> 2 ^ 96" using M(2) by simp
  then have rM: "in_range M" using M(1) by (intro in_range_le) simp
  have v0: "0 \<le> M / real k" using M(1) by simp
  have v1: "M / real k \<le> 2 ^ 65" using M(2) k1 by (simp add: divide_le_eq)
  have rv: "in_range (M / real k)" using v0 v1 by (intro in_range_le) simp
  have s0: "0 \<le> sqrt (M / real k)" using v0 by simp
  have s1: "sqrt (M / real k) \<le> 1 + 2 ^ 65" using sqrt_le_Suc [OF v0] v1 by linarith
  show rs: "in_range (sqrt (M / real k))" using s0 s1 by (intro in_range_le) simp
  have q0: "0 \<le> sqrt (real k)" by simp
  have q1: "1 \<le> sqrt (real k)" using k1 by simp
  have "sqrt (real k) \<le> 1 + real k" by (rule sqrt_le_Suc) simp
  moreover have "(1 + 2 ^ 31 :: real) \<le> 2 ^ 127" by simp
  ultimately have "sqrt (real k) \<le> 2 ^ 127" using kr(2) by linarith
  then have rq: "in_range (sqrt (real k))" using q0 by (intro in_range_le) simp
  have qz: "sqrt (real k) \<noteq> 0" using q1 by linarith
  have "\<bar>sqrt (M / real k) / sqrt (real k)\<bar> \<le> 1 + 2 ^ 65"
    using abs_div_le [OF _ q1, of "sqrt (M / real k)" "1 + 2 ^ 65"] s0 s1 by simp
  then show re: "in_range (sqrt (M / real k) / sqrt (real k))" by (intro in_range_le) simp
  have e1: "fdiv (Fin M) (Fin (real k)) = Fin (M / real k)"
    using rM kr(1) k1(2) by simp
  have e2: "fpow_half (Fin (M / real k)) = Fin (sqrt (M / real k))"
    using rv v0 by (simp add: not_less)
  have e3: "fpow_half (Fin (real k)) = Fin (sqrt (real k))"
    using kr(1) by simp
  have e4: "fdiv (Fin (sqrt (M / real k))) (Fin (sqrt (real k)))
      = Fin (sqrt (M / real k) / sqrt (real k))"
    using rs rq qz by (rule fdiv_Fin)
  show "Welford_compute self =
     \<lparr>Statistics.mean = Fin \<mu>,
      standard_error_of_mean = Fin (sqrt (M / real k) / sqrt (real k)),
      standard_deviation = Fin (sqrt (M / real k))\<rparr>"
    unfolding Welford_compute_def Let_def icell_f32_def st k(1) of_int_of_nat_eq e1 e2 e3 e4
    by simp
qed

lemma all_values_scalars:
  "list_all scalar_value vals \<Longrightarrow> length (all_values vals) = length vals"
  by (induction vals) (auto simp: all_values_def elim: scalar_value.elims)

lemma scalar_nonempty: "list_all scalar_value vals \<Longrightarrow> list_all nonempty_value vals"
  by (induction vals) (auto elim: scalar_value.elims)

lemma Welford_two_pass_from_zero:
  assumes vs: "all_values vals \<noteq> []"
    and mv: "list_all moderate_value vals" "list_all nonempty_value vals"
    and zero: "icell_int (Welford.count self) = 0" "m2 self = Fin 0" "Welford.mean self = Fin 0"
    and bound: "int (length (all_values vals)) < 2 ^ 31"
  shows "\<exists>self'. update_all Welford_update self
            (map (\<lambda>v. [Welford.argname self \<mapsto> v]) vals) = Return self' \<and>
          Welford_compute self' =
            \<lparr>Statistics.mean = Fin (population_mean (observations vals)),
             standard_error_of_mean = Fin (population_sd (observations vals)
                / sqrt (real (length (observations vals)))),
             standard_deviation = Fin (population_sd (observations vals))\<rparr> \<and>
          in_range (population_mean (observations vals)) \<and>
          in_range (population_sd (observations vals)) \<and>
          in_range (population_sd (observations vals) / sqrt (real (length (observations vals))))"
proof -
  define vs where "vs = observations vals"
  let ?k = "real (length vs)"
  have len: "length vs = length (all_values vals)" by (simp add: vs_def observations_def)
  have ms: "moderate_state self"
    by (simp add: moderate_state_def moderate_def zero)
  have b: "icell_int (Welford.count self) + int (length (all_values vals)) < 2 ^ 31"
    using bound zero(1) by simp
  from Welford_run [OF mv ms b]
  obtain s where s: "update_all Welford_update self
        (map (\<lambda>v. [Welford.argname self \<mapsto> v]) vals) = Return s"
    "moderate_state s"
    "Welford.count s = icell_add (Welford.count self) (length (all_values vals))"
    "count_real s = count_real self + real (length (all_values vals))"
    "moment1 s = moment1 self + sum_list vs"
    "moment2 s = moment2 self + (\<Sum>x\<leftarrow>vs. x * x)"
    unfolding vs_def observations_def by blast
  from s(2) obtain \<mu> M where st: "Welford.mean s = Fin \<mu>" "m2 s = Fin M"
    and bd: "\<bar>\<mu>\<bar> \<le> 2 ^ 31" "0 \<le> M" "M \<le> 2 ^ 65 * real_of_int (icell_int (Welford.count s))"
    and r: "in_range \<mu>" "in_range M"
    by (rule moderate_stateE)
  have k: "0 < ?k" using vs by (simp add: len)
  have cr0: "count_real self = 0"
    using zero(1) by (simp add: count_real_def)
  have cr: "count_real s = ?k"
    using s(4) by (simp add: cr0 len)
  have ci: "icell_int (Welford.count s) = int (length vs)"
    using cr by (simp add: count_real_def)
  have m1: "?k * \<mu> = sum_list vs"
    using s(5) by (simp add: moment1_def cr cr0 st r)
  have m2: "M + ?k * (\<mu> * \<mu>) = (\<Sum>x\<leftarrow>vs. x * x)"
    using s(6) by (simp add: moment2_def cr cr0 st r zero)
  have mu: "\<mu> = population_mean vs"
    using m1 k by (simp add: population_mean_def field_simps)
  have "(\<Sum>x\<leftarrow>vs. (x - \<mu>) * (x - \<mu>)) = (\<Sum>x\<leftarrow>vs. x * x) - 2 * \<mu> * sum_list vs + ?k * (\<mu> * \<mu>)"
    by (rule sum_sq_dev)
  also have "\<dots> = M"
    unfolding m1 [symmetric] m2 [symmetric] by (simp add: algebra_simps)
  finally have M: "M = (\<Sum>x\<leftarrow>vs. (x - \<mu>) * (x - \<mu>))" by simp
  have sd: "sqrt (M / ?k) = population_sd vs"
    by (simp add: population_sd_def M mu)
  have k0: "0 < length vs" using vs by (simp add: len)
  have klt: "int (length vs) < 2 ^ 31" using bound by (simp add: len)
  have Mk: "M \<le> 2 ^ 65 * real (length vs)" using bd(3) by (simp add: ci)
  note C = Welford_compute_moderate [OF st ci k0 klt bd(2) Mk]
  have "Welford_compute s =
     \<lparr>Statistics.mean = Fin (population_mean vs),
      standard_error_of_mean = Fin (population_sd vs / sqrt ?k),
      standard_deviation = Fin (population_sd vs)\<rparr>"
    using C(1) by (simp only: sd mu)
  moreover have "in_range (population_mean vs)" using r(1) by (simp only: mu)
  moreover have "in_range (population_sd vs)" using C(2) by (simp only: sd)
  moreover have "in_range (population_sd vs / sqrt ?k)" using C(3) by (simp only: sd)
  ultimately show ?thesis using s(1) unfolding vs_def by blast
qed





section \<open>The invariants\<close>

lemma moderate_state_inv: "moderate_state self \<Longrightarrow> Welford_inv self"
proof -
  assume "moderate_state self"
  then obtain \<mu> M where "Welford.mean self = Fin \<mu>" "m2 self = Fin M" "0 \<le> M"
    "0 \<le> icell_int (Welford.count self)" "in_range M"
    by (rule moderate_stateE)
  then show ?thesis by (simp add: Welford_inv_def)
qed

lemma Average_update_Return:
  assumes "kwargs (Average.argname self) = Some v" "accepted_value v"
  shows "Average_update self kwargs =
     Return (self\<lparr>total := fadd (total self)
                    (case v of PyInt i \<Rightarrow> Fin (real_of_int i) | PyFloat x \<Rightarrow> x
                     | Array a \<Rightarrow> sum_arr a),
                  Average.count := icell_add (Average.count self) (length (values_of v))\<rparr>)"
  using assms
  by (cases v) (simp_all add: Average_update_def Let_def weak_int_def weak_int_ok_def size_arr_def)





section \<open>One batch against single observations\<close>

lemma all_values_map_PyFloat: "all_values (map PyFloat xs) = xs"
  by (induction xs) (simp_all add: all_values_def)

lemma all_values_map_singleton:
  "all_values (map (\<lambda>x. Array \<lparr>shape = [1], dtype = d, elems = [x]\<rparr>) xs) = xs"
  by (induction xs) (simp_all add: all_values_def)

lemma Welford_same_moments:
  assumes "moderate_state s" "moderate_state t"
    and "Welford.argname s = Welford.argname t" "Welford.count s = Welford.count t"
    and "0 < count_real s"
    and "moment1 s = moment1 t" "moment2 s = moment2 t"
  shows "s = t"
proof -
  have "count_real s = count_real t"
    using assms(4) by (simp add: count_real_def)
  from Welford_moments_determine [OF assms(1,2) this assms(5,6,7)] assms(3,4)
  show ?thesis by (intro Welford.equality) simp_all
qed

lemma Welford_batch_sequential:
  assumes ms: "moderate_state self"
    and a: "elems a \<noteq> []" "list_all moderate (elems a)"
    and bound: "icell_int (Welford.count self) + int (length (elems a)) < 2 ^ 31"
    and vals: "all_values vals = elems a" "list_all moderate_value vals"
      "list_all nonempty_value vals"
  shows "\<exists>self'. Welford_update self [Welford.argname self \<mapsto> Array a] = Return self' \<and>
           update_all Welford_update self (map (\<lambda>v. [Welford.argname self \<mapsto> v]) vals)
             = Return self'"
proof -
  have kw: "[Welford.argname self \<mapsto> Array a] (Welford.argname self) = Some (Array a)"
    by simp
  have fa: "moderate_value (Array a)" "nonempty_value (Array a)" using a by simp_all
  have b1: "icell_int (Welford.count self) + int (length (values_of (Array a))) < 2 ^ 31"
    using bound by simp
  from Welford_step [where kwargs = "[Welford.argname self \<mapsto> Array a]" and self = self,
      OF kw fa ms b1]
  obtain s1 where s1: "Welford_update self [Welford.argname self \<mapsto> Array a] = Return s1"
    "moderate_state s1" "Welford.argname s1 = Welford.argname self"
    "Welford.count s1 = icell_add (Welford.count self) (length (values_of (Array a)))"
    "count_real s1 = count_real self + real (length (values_of (Array a)))"
    "moment1 s1 = moment1 self + sum_list (map the_Fin (values_of (Array a)))"
    "moment2 s1 = moment2 self + (\<Sum>x\<leftarrow>map the_Fin (values_of (Array a)). x * x)"
    by blast
  have b2: "icell_int (Welford.count self) + int (length (all_values vals)) < 2 ^ 31"
    using bound by (simp add: vals(1))
  from Welford_run [OF vals(2,3) ms b2]
  obtain s2 where s2: "update_all Welford_update self
        (map (\<lambda>v. [Welford.argname self \<mapsto> v]) vals) = Return s2"
    "moderate_state s2" "Welford.argname s2 = Welford.argname self"
    "Welford.count s2 = icell_add (Welford.count self) (length (all_values vals))"
    "count_real s2 = count_real self + real (length (all_values vals))"
    "moment1 s2 = moment1 self + sum_list (map the_Fin (all_values vals))"
    "moment2 s2 = moment2 self + (\<Sum>x\<leftarrow>map the_Fin (all_values vals). x * x)"
    by blast
  have "0 \<le> count_real self"
    using ms by (simp add: moderate_state_def count_real_def)
  moreover have "0 < real (length (elems a))" using a(1) by simp
  ultimately have "0 < count_real self + real (length (elems a))" by linarith
  then have pos: "0 < count_real s1" by (simp add: s1(5))
  have "s1 = s2"
    by (rule Welford_same_moments [OF s1(2) s2(2) _ _ pos])
       (simp_all add: s1 s2 vals(1))
  with s1(1) s2(1) show ?thesis by simp
qed

lemma Welford_single_is_classic:
  assumes ms: "moderate_state self"
    and x: "\<bar>x\<bar> \<le> 2 ^ 31"
    and bound: "icell_int (Welford.count self) + 1 < 2 ^ 31"
  shows "Welford_update self
           [Welford.argname self \<mapsto> Array \<lparr>shape = [1], dtype = d, elems = [Fin x]\<rparr>]
         = Return (classic_Welford self x)"
    and "Welford_update self [Welford.argname self \<mapsto> PyFloat (Fin x)]
         = Return (classic_Welford self x)"
proof -
  from ms obtain \<mu> M where st: "Welford.mean self = Fin \<mu>" "m2 self = Fin M"
    and b: "\<bar>\<mu>\<bar> \<le> 2 ^ 31" "0 \<le> M" "M \<le> 2 ^ 65 * real_of_int (icell_int (Welford.count self))"
    and c0: "0 \<le> icell_int (Welford.count self)" and r: "in_range \<mu>" "in_range M"
    by (rule moderate_stateE)
  let ?c = "real_of_int (icell_int (Welford.count self))"
  have nz: "?c + 1 \<noteq> 0" using c0 by linarith
  have eq: "(x - \<mu>) * (x - \<mu>) * ?c / (?c + 1) = (x - \<mu>) * (x - (\<mu> + (x - \<mu>) / (?c + 1)))"
    using nz by (simp add: field_simps)
  have cl: "classic_Welford self x =
      self\<lparr>Welford.count := icell_add (Welford.count self) 1,
           Welford.mean := Fin (\<mu> + (x - \<mu>) / (?c + 1)),
           m2 := Fin (M + (x - \<mu>) * (x - \<mu>) * ?c / (?c + 1))\<rparr>"
    by (simp add: classic_Welford_def Let_def st r eq)
  have b1: "icell_int (Welford.count self) + int (length [x]) < 2 ^ 31"
    using bound by simp
  have xs: "\<forall>y\<in>set [x]. \<bar>y\<bar> \<le> 2 ^ 31" using x by simp
  have v: "PyFloat (Fin x) = PyFloat (Fin x) \<or>
      (\<exists>i. PyFloat (Fin x) = PyInt i \<and> weak_int_ok i \<and> x = real_of_int i)" by simp
  show "Welford_update self
           [Welford.argname self \<mapsto> Array \<lparr>shape = [1], dtype = d, elems = [Fin x]\<rparr>]
         = Return (classic_Welford self x)"
    unfolding cl
    using Welford_update_array_moderate
      [where kwargs = "[Welford.argname self \<mapsto> Array \<lparr>shape = [1], dtype = d, elems = [Fin x]\<rparr>]"
         and self = self and xs = "[x]", OF _ _ _ xs st b c0 b1]
    by simp
  show "Welford_update self [Welford.argname self \<mapsto> PyFloat (Fin x)]
         = Return (classic_Welford self x)"
    unfolding cl
    using Welford_update_scalar_moderate
      [where kwargs = "[Welford.argname self \<mapsto> PyFloat (Fin x)]" and self = self,
       OF _ v x st b c0 bound]
    by simp
qed





section \<open>\<^verbatim>\<open>Average\<close> as the mean of all observations\<close>

lemma whole_int_sum:
  "list_all whole ys \<Longrightarrow> real_of_int (\<Sum>x\<leftarrow>ys. \<lfloor>the_Fin x\<rfloor>) = sum_list (map the_Fin ys)"
  by (induction ys) (simp_all add: whole_def)

lemma sum_arr_fits:
  assumes m: "list_all moderate (elems a)" and f: "sum_fits a"
    and n: "int (length (elems a)) < 2 ^ 31"
  shows "sum_arr a = Fin (sum_list (map the_Fin (elems a)))"
    and "\<bar>sum_list (map the_Fin (elems a))\<bar> \<le> real (length (elems a)) * 2 ^ 31"
proof -
  define xs where "xs = map the_Fin (elems a)"
  from list_all_moderate [OF m]
  have a: "elems a = map Fin xs" and xs: "\<forall>x\<in>set xs. \<bar>x\<bar> \<le> 2 ^ 31"
    by (simp_all add: xs_def)
  have len: "length xs = length (elems a)" by (simp add: xs_def)
  have "real_of_int (int (length xs)) < 2 ^ 31"
    using n unfolding len by (metis of_int_less_iff of_int_numeral of_int_power)
  then have "real (length xs) \<le> 2 ^ 31" by simp
  then have "real (length xs) * 2 ^ 31 \<le> (2 ^ 31 :: real) * 2 ^ 31"
    by (intro mult_right_mono) simp_all
  then have le: "real (length xs) * 2 ^ 31 \<le> (2 ^ 127 :: real)" by simp
  from fsum_Fin_bounded [OF xs le]
  have s: "fsum (map Fin xs) = Fin (sum_list xs)" "\<bar>sum_list xs\<bar> \<le> real (length xs) * 2 ^ 31"
    by simp_all
  show "\<bar>sum_list (map the_Fin (elems a))\<bar> \<le> real (length (elems a)) * 2 ^ 31"
    using s(2) by (simp add: xs_def)
  have "sum_arr a = Fin (sum_list xs)"
  proof (cases "dtype a")
    case float32
    then show ?thesis using s(1) a by (simp add: sum_arr_def)
  next
    case int32
    with f have w: "list_all whole (elems a)" and b: "- (2 ^ 31) \<le> int_sum a" "int_sum a < 2 ^ 31"
      by (simp_all add: sum_fits_def)
    have "signed_take_bit 31 (int_sum a) = int_sum a"
      using b by (intro signed_take_bit_int_eq_self) simp_all
    then show ?thesis
      using whole_int_sum [OF w] by (simp add: sum_arr_def int32 int_sum_def xs_def)
  next
    case uint32
    with f have w: "list_all whole (elems a)" and b: "0 \<le> int_sum a" "int_sum a < 2 ^ 32"
      by (simp_all add: sum_fits_def)
    have "take_bit 32 (int_sum a) = int_sum a"
      using b by (intro take_bit_int_eq_self) simp_all
    then show ?thesis
      using whole_int_sum [OF w] by (simp add: sum_arr_def uint32 int_sum_def xs_def)
  next
    case boolean
    with f have w: "list_all whole (elems a)" and b: "- (2 ^ 31) \<le> int_sum a" "int_sum a < 2 ^ 31"
      by (simp_all add: sum_fits_def)
    have "signed_take_bit 31 (int_sum a) = int_sum a"
      using b by (intro signed_take_bit_int_eq_self) simp_all
    then show ?thesis
      using whole_int_sum [OF w] by (simp add: sum_arr_def boolean int_sum_def xs_def)
  qed
  then show "sum_arr a = Fin (sum_list (map the_Fin (elems a)))" by (simp add: xs_def)
qed

lemma addend_moderate:
  assumes v: "moderate_value v" "sum_fits_value v"
    and n: "int (length (values_of v)) < 2 ^ 31"
  shows "(case v of PyInt i \<Rightarrow> Fin (real_of_int i) | PyFloat x \<Rightarrow> x | Array a \<Rightarrow> sum_arr a)
           = Fin (sum_list (map the_Fin (values_of v)))"
    and "\<bar>sum_list (map the_Fin (values_of v))\<bar> \<le> real (length (values_of v)) * 2 ^ 31"
    and "accepted_value v"
proof -
  have "(case v of PyInt i \<Rightarrow> Fin (real_of_int i) | PyFloat x \<Rightarrow> x | Array a \<Rightarrow> sum_arr a)
           = Fin (sum_list (map the_Fin (values_of v))) \<and>
        \<bar>sum_list (map the_Fin (values_of v))\<bar> \<le> real (length (values_of v)) * 2 ^ 31 \<and>
        accepted_value v"
  proof (cases v)
    case (PyInt i)
    with v have ok: "weak_int_ok i" by simp
    then have "\<bar>i\<bar> \<le> 2 ^ 31" unfolding weak_int_ok_def by linarith
    then have b: "\<bar>real_of_int i\<bar> \<le> 2 ^ 31"
      by (metis of_int_abs of_int_le_iff of_int_numeral of_int_power)
    then have "in_range (real_of_int i)" by (intro in_range_le) simp
    then show ?thesis using b ok by (simp add: PyInt)
  next
    case (PyFloat y)
    with v obtain r where r: "y = Fin r" "\<bar>r\<bar> \<le> 2 ^ 31" "in_range r"
      by (auto elim: moderateE)
    then show ?thesis by (simp add: PyFloat)
  next
    case (Array a)
    with v n have "list_all moderate (elems a)" "sum_fits a" "int (length (elems a)) < 2 ^ 31"
      by simp_all
    from sum_arr_fits [OF this] n show ?thesis
      by (simp add: Array weak_int_ok_def size_arr_def)
  qed
  then show "(case v of PyInt i \<Rightarrow> Fin (real_of_int i) | PyFloat x \<Rightarrow> x | Array a \<Rightarrow> sum_arr a)
           = Fin (sum_list (map the_Fin (values_of v)))"
    and "\<bar>sum_list (map the_Fin (values_of v))\<bar> \<le> real (length (values_of v)) * 2 ^ 31"
    and "accepted_value v"
    by simp_all
qed

lemma Average_run:
  assumes "list_all moderate_value vals" "list_all sum_fits_value vals"
    and "total self = Fin T" "\<bar>T\<bar> \<le> real_of_int (icell_int (Average.count self)) * 2 ^ 31"
    and "0 \<le> icell_int (Average.count self)"
    and "icell_int (Average.count self) + int (length (all_values vals)) < 2 ^ 31"
  shows "update_all Average_update self (map (\<lambda>v. [Average.argname self \<mapsto> v]) vals) =
     Return (self\<lparr>total := Fin (T + sum_list (observations vals)),
                  Average.count := icell_add (Average.count self) (length (all_values vals))\<rparr>)"
  using assms
proof (induction vals arbitrary: self T)
  case Nil
  then show ?case by (simp add: all_values_def observations_def icell_add_zero)
next
  case (Cons v vals)
  define S where "S = sum_list (map the_Fin (values_of v))"
  define k where "k = real_of_int (icell_int (Average.count self))"
  define n where "n = length (values_of v)"
  have av: "all_values (v # vals) = values_of v @ all_values vals"
    by (simp add: all_values_def)
  have ob: "observations (v # vals) = map the_Fin (values_of v) @ observations vals"
    by (simp add: observations_def av)
  have mv: "moderate_value v" "list_all moderate_value vals"
    "sum_fits_value v" "list_all sum_fits_value vals"
    using Cons.prems(1,2) by simp_all
  have c1: "icell_int (Average.count self) + int n < 2 ^ 31"
    using Cons.prems(6) by (simp add: av n_def)
  have nlt: "int (length (values_of v)) < 2 ^ 31"
    using c1 Cons.prems(5) by (simp add: n_def)
  note A = addend_moderate [OF mv(1) mv(3) nlt, folded S_def n_def]
  have kb: "0 \<le> k" "k \<le> 2 ^ 31"
    using count_in_range [of "icell_int (Average.count self)"] Cons.prems(5) c1
    by (simp_all add: k_def)
  have nb: "real n \<le> 2 ^ 31"
  proof -
    have "real_of_int (int n) < 2 ^ 31"
      using nlt unfolding n_def by (metis of_int_less_iff of_int_numeral of_int_power)
    then show ?thesis by simp
  qed
  have Tb: "\<bar>T\<bar> \<le> k * 2 ^ 31" using Cons.prems(4) by (simp add: k_def)
  have "k * 2 ^ 31 \<le> (2 ^ 31 :: real) * 2 ^ 31" using kb by (intro mult_right_mono) simp_all
  then have rT: "in_range T" using Tb by (intro in_range_le) simp
  have "real n * 2 ^ 31 \<le> (2 ^ 31 :: real) * 2 ^ 31" using nb by (intro mult_right_mono) simp_all
  then have rS: "in_range S" using A(2) by (intro in_range_le) simp
  define s1 where "s1 = self\<lparr>total := Fin (T + S),
      Average.count := icell_add (Average.count self) n\<rparr>"
  have kw: "[Average.argname self \<mapsto> v] (Average.argname self) = Some v" by simp
  have u: "Average_update self [Average.argname self \<mapsto> v] = Return s1"
    unfolding Average_update_Return [where kwargs = "[Average.argname self \<mapsto> v]"
        and self = self, OF kw A(3)] A(1) s1_def n_def
    by (simp add: Cons.prems(3) rT rS)
  have an: "Average.argname s1 = Average.argname self" by (simp add: s1_def)
  have lt: "icell_int (Average.count self) + int n < icell_bound (Average.count self)"
    using c1 icell_bound_le [of "Average.count self"] by linarith
  have cn: "icell_int (Average.count s1) = icell_int (Average.count self) + int n"
    using icell_int_add [OF lt] by (simp add: s1_def)
  have p3: "total s1 = Fin (T + S)" by (simp add: s1_def)
  have p4: "\<bar>T + S\<bar> \<le> real_of_int (icell_int (Average.count s1)) * 2 ^ 31"
    using Tb A(2) by (simp add: cn k_def algebra_simps)
  have p5: "0 \<le> icell_int (Average.count s1)" using Cons.prems(5) cn by simp
  have p6: "icell_int (Average.count s1) + int (length (all_values vals)) < 2 ^ 31"
    using Cons.prems(6) by (simp add: cn av n_def)
  have "update_all Average_update self (map (\<lambda>v. [Average.argname self \<mapsto> v]) (v # vals))
      = update_all Average_update s1 (map (\<lambda>v. [Average.argname s1 \<mapsto> v]) vals)"
    unfolding an by (simp only: list.map update_all.simps u outcome.case)
  also have "\<dots> = Return (s1\<lparr>total := Fin (T + S + sum_list (observations vals)),
        Average.count := icell_add (Average.count s1) (length (all_values vals))\<rparr>)"
    by (rule Cons.IH [OF mv(2) mv(4) p3 p4 p5 p6])
  also have "\<dots> = Return (self\<lparr>total := Fin (T + sum_list (observations (v # vals))),
        Average.count := icell_add (Average.count self) (length (all_values (v # vals)))\<rparr>)"
    by (simp add: s1_def av ob icell_add_add S_def n_def add.assoc)
  finally show ?case .
qed




lemma fsum_replicate_one:
  assumes "real n \<le> 2 ^ 127"
  shows "fsum (replicate n (Fin 1)) = Fin (real n)"
proof -
  have "fsum (map Fin (replicate n 1)) = Fin (sum_list (replicate n 1))"
    using fsum_Fin_bounded [of "replicate n 1" 1] assms by simp
  then show ?thesis by (simp add: sum_list_replicate)
qed



end
